theory Spec2Isabelle
  imports Main "HOL-Library.Multiset"
begin

section \<open>Data model (src/types/Comment.ts)\<close>

text \<open>
  A \<open>Comment\<close> is the flat record.  The field \<open>id\<close> of the source is called
  \<open>id_c\<close> here (\<open>id\<close> is the identity function of HOL).  \<open>parentId\<close> is
  \<open>string | null\<close>, hence an option; \<open>optimistic\<close> is an optional boolean
  (\<open>None\<close>: the key is absent).  A string of the source is held as the bytes of its
  UTF-8 encoding, which is what a string literal is here; two strings of the source
  are equal exactly when their encodings are.
\<close>

record Comment =
  id_c :: string
  parentId :: "string option"
  content :: string
  author :: string
  createdAt :: string
  optimistic :: "bool option"

text \<open>
  A \<open>CommentNode\<close> extends a Comment by \<open>children\<close> and \<open>depth\<close>.  The value
  returned by the tree builder is a tree of such nodes; \<open>comment\<close> holds the
  inherited Comment fields.
\<close>

datatype CommentNode =
  CommentNode (comment: Comment) (children: "CommentNode list") (depth: nat)

text \<open>
  While \<open>buildTree\<close> runs, the node objects live in a \<open>Map<string, CommentNode>\<close>
  and are mutated in place (\<open>node.depth = ...\<close>, \<open>parent.children.push(node)\<close>,
  \<open>node.children.sort(...)\<close>).  Every node object that is ever referenced is the
  one stored under its key in the map, so the key is the object's identity: the heap
  is the map itself, and a reference to a node object is its key.
\<close>

record node_obj =
  obj_comment :: Comment
  obj_children :: "string list"
  obj_depth :: nat

type_synonym heap = "string \<Rightarrow> node_obj option"

section \<open>Array.prototype.sort and Date\<close>

text \<open>
  \<open>xs.sort(cmp)\<close> is a stable sort.  It is modelled by stable insertion sort: an
  element goes in front of the first element it does not compare greater than.  A
  comparator result that is NaN counts as 0.  With a consistent comparator every
  stable sort gives this result; with an inconsistent one (NaN results) the order of
  the source is implementation-defined, and the model's order is one of the
  permutations it may be.
\<close>

fun insertBy :: "('a \<Rightarrow> 'a \<Rightarrow> int) \<Rightarrow> 'a \<Rightarrow> 'a list \<Rightarrow> 'a list" where
  "insertBy cmp x [] = [x]"
| "insertBy cmp x (y # ys) = (if cmp x y \<le> 0 then x # y # ys else y # insertBy cmp x ys)"

definition sortBy :: "('a \<Rightarrow> 'a \<Rightarrow> int) \<Rightarrow> 'a list \<Rightarrow> 'a list" where
  "sortBy cmp xs = foldr (insertBy cmp) xs []"

text \<open>
  \<open>new Date(s).getTime()\<close> is a parameter \<open>tm\<close> of the tree builder: it yields the
  time value in milliseconds, or \<open>None\<close> for NaN (an unparseable string).  The
  comparator of the source is \<open>getTime(a) - getTime(b)\<close>; only its sign matters,
  and the difference is NaN, hence 0 for the sort, when either side is NaN.
\<close>

definition compareTime :: "int option \<Rightarrow> int option \<Rightarrow> int" where
  "compareTime a b = (case a of None \<Rightarrow> 0 | Some x \<Rightarrow> (case b of None \<Rightarrow> 0 | Some y \<Rightarrow> x - y))"

definition refTime :: "(string \<Rightarrow> int option) \<Rightarrow> heap \<Rightarrow> string \<Rightarrow> int option" where
  "refTime tm h r = (case h r of None \<Rightarrow> None | Some node \<Rightarrow> tm (createdAt (obj_comment node)))"

definition sortRefs :: "(string \<Rightarrow> int option) \<Rightarrow> heap \<Rightarrow> string list \<Rightarrow> string list" where
  "sortRefs tm h rs = sortBy (\<lambda>a b. compareTime (refTime tm h a) (refTime tm h b)) rs"

text \<open>
  An instance of \<open>tm\<close> for the examples: the ECMAScript date-time string format
  \<open>YYYY-MM-DDTHH:mm:ssZ\<close>, with or without \<open>.sss\<close> before the \<open>Z\<close>, as the seeded
  data and \<open>toISOString\<close> write it.
\<close>

definition digitVal :: "char \<Rightarrow> int option" where
  "digitVal c = (if (48::nat) \<le> of_char c \<and> of_char c \<le> (57::nat) then Some (int (of_char c) - 48) else None)"

fun digitsVal :: "int \<Rightarrow> string \<Rightarrow> int option" where
  "digitsVal acc [] = Some acc"
| "digitsVal acc (c # cs) = (case digitVal c of None \<Rightarrow> None | Some d \<Rightarrow> digitsVal (acc * 10 + d) cs)"

definition daysFromCivil :: "int \<Rightarrow> int \<Rightarrow> int \<Rightarrow> int" where
  "daysFromCivil y m d =
     (let y' = (if m \<le> 2 then y - 1 else y);
          era = y' div 400;
          yoe = y' - era * 400;
          doy = (153 * (if m > 2 then m - 3 else m + 9) + 2) div 5 + d - 1;
          doe = yoe * 365 + yoe div 4 - yoe div 100 + doy
      in era * 146097 + doe - 719468)"

definition daysInMonth :: "int \<Rightarrow> int \<Rightarrow> int" where
  "daysInMonth y m =
     (if m = 2 then (if y mod 4 = 0 \<and> (y mod 400 = 0 \<or> y mod 100 \<noteq> 0) then 29 else 28)
      else if m = 4 \<or> m = 6 \<or> m = 9 \<or> m = 11 then 30 else 31)"

definition isoFields :: "string \<Rightarrow> (string \<times> string \<times> string \<times> string \<times> string \<times> string \<times> string) option" where
  "isoFields s =
     (if length s = 20 \<and> s ! 4 = CHR ''-'' \<and> s ! 7 = CHR ''-'' \<and> s ! 10 = CHR ''T''
         \<and> s ! 13 = CHR '':'' \<and> s ! 16 = CHR '':'' \<and> s ! 19 = CHR ''Z''
      then Some (take 4 s, take 2 (drop 5 s), take 2 (drop 8 s), take 2 (drop 11 s),
                 take 2 (drop 14 s), take 2 (drop 17 s), ''000'')
      else if length s = 24 \<and> s ! 4 = CHR ''-'' \<and> s ! 7 = CHR ''-'' \<and> s ! 10 = CHR ''T''
         \<and> s ! 13 = CHR '':'' \<and> s ! 16 = CHR '':'' \<and> s ! 19 = CHR ''.'' \<and> s ! 23 = CHR ''Z''
      then Some (take 4 s, take 2 (drop 5 s), take 2 (drop 8 s), take 2 (drop 11 s),
                 take 2 (drop 14 s), take 2 (drop 17 s), take 3 (drop 20 s))
      else None)"

definition isoTime :: "string \<Rightarrow> int option" where
  "isoTime s =
     (case isoFields s of None \<Rightarrow> None
      | Some (ys, mos, ds, hs, mis, ss, mss) \<Rightarrow>
        (case (digitsVal 0 ys, digitsVal 0 mos, digitsVal 0 ds, digitsVal 0 hs,
               digitsVal 0 mis, digitsVal 0 ss, digitsVal 0 mss) of
           (Some y, Some mo, Some d, Some h, Some mi, Some se, Some ms) \<Rightarrow>
             (if 1 \<le> mo \<and> mo \<le> 12 \<and> 1 \<le> d \<and> d \<le> daysInMonth y mo
                 \<and> h \<le> 23 \<and> mi \<le> 59 \<and> se \<le> 59
              then Some ((((daysFromCivil y mo d * 24 + h) * 60 + mi) * 60 + se) * 1000 + ms)
              else None)
         | _ \<Rightarrow> None))"

section \<open>Tree builder (src/utils/TreeBuilder.ts)\<close>

text \<open>First pass of \<open>buildTree\<close>: \<open>map.set(comment.id, {...comment, children: [], depth: 0})\<close>.\<close>

definition newNode :: "Comment \<Rightarrow> node_obj" where
  "newNode c = \<lparr>obj_comment = c, obj_children = [], obj_depth = 0\<rparr>"

definition indexComments :: "Comment list \<Rightarrow> heap" where
  "indexComments comments = foldl (\<lambda>m c. m(id_c c \<mapsto> newNode c)) Map.empty comments"

text \<open>
  Second pass, one iteration: the state is the map and the \<open>roots\<close> array (of
  references).  \<open>map.get(comment.id)!\<close> is always present after the first pass; the
  branch for its absence leaves the state as it is.  The assignment to
  \<open>node.depth\<close> is done before \<open>parent.children.push(node)\<close>, and the parent is
  read again after it, so that a comment that is its own parent is handled as the
  source handles it.
\<close>

definition link :: "heap \<times> string list \<Rightarrow> Comment \<Rightarrow> heap \<times> string list" where
  "link st c =
     (case st of (m, roots) \<Rightarrow>
       (case m (id_c c) of
          None \<Rightarrow> (m, roots)
        | Some node \<Rightarrow>
          (case parentId c of
             None \<Rightarrow> (m, roots @ [id_c c])
           | Some pid \<Rightarrow>
             (case m pid of
                Some parent \<Rightarrow>
                  (let m1 = m(id_c c \<mapsto> node\<lparr>obj_depth := obj_depth parent + 1\<rparr>)
                   in (case m1 pid of
                         None \<Rightarrow> (m1, roots)
                       | Some parent1 \<Rightarrow>
                           (m1(pid \<mapsto> parent1\<lparr>obj_children := obj_children parent1 @ [id_c c]\<rparr>), roots)))
              | None \<Rightarrow> (m, roots @ [id_c c])))))"

text \<open>\<open>xs.forEach(f)\<close> for an \<open>f\<close> that updates a state and may not return.\<close>

fun forEachM :: "('a \<Rightarrow> 's \<Rightarrow> 's option) \<Rightarrow> 'a list \<Rightarrow> 's \<Rightarrow> 's option" where
  "forEachM f [] s = Some s"
| "forEachM f (x # xs) s = (case f x s of None \<Rightarrow> None | Some s' \<Rightarrow> forEachM f xs s')"

text \<open>
  \<open>sortChildren\<close> sorts \<open>node.children\<close> in place and recurses into the children.
  On an object graph with a cycle below the node the recursion of the source never
  returns (it ends in a stack overflow); the model has a recursion budget and yields
  \<open>None\<close> when it is used up.
\<close>

primrec sortChildren :: "(string \<Rightarrow> int option) \<Rightarrow> nat \<Rightarrow> string \<Rightarrow> heap \<Rightarrow> heap option" where
  "sortChildren tm 0 = (\<lambda>r h. None)"
| "sortChildren tm (Suc n) = (\<lambda>r h.
     (case h r of
        None \<Rightarrow> None
      | Some node \<Rightarrow>
          (let sorted = sortRefs tm h (obj_children node);
               h1 = h(r \<mapsto> node\<lparr>obj_children := sorted\<rparr>)
           in forEachM (sortChildren tm n) sorted h1)))"

text \<open>
  The value a caller sees: the object graph below a reference, read as a tree.
\<close>

primrec toTree :: "nat \<Rightarrow> heap \<Rightarrow> string \<Rightarrow> CommentNode option" where
  "toTree 0 = (\<lambda>h r. None)"
| "toTree (Suc n) = (\<lambda>h r.
     (case h r of
        None \<Rightarrow> None
      | Some node \<Rightarrow>
          (case those (map (toTree n h) (obj_children node)) of
             None \<Rightarrow> None
           | Some ts \<Rightarrow> Some (CommentNode (obj_comment node) ts (obj_depth node)))))"

text \<open>
  \<open>buildTree\<close>.  The result is \<open>None\<close> when the source does not return.  A
  recursion that returns never meets a node object twice on one path, and there are
  at most \<open>length comments\<close> node objects, so the budget \<open>Suc (length comments)\<close> is
  never used up by a run that returns.
\<close>

definition buildTree :: "(string \<Rightarrow> int option) \<Rightarrow> Comment list \<Rightarrow> CommentNode list option" where
  "buildTree tm comments =
     (case foldl link (indexComments comments, []) comments of
        (m, roots) \<Rightarrow>
          (case forEachM (sortChildren tm (Suc (length comments))) roots m of
             None \<Rightarrow> None
           | Some m' \<Rightarrow> those (map (toTree (Suc (length comments)) m') (sortRefs tm m' roots))))"

text \<open>
  The three traversals keep their accumulator (\<open>result\<close>, \<open>maxDepth\<close>, \<open>count\<close>, the last written \<open>n\<close>)
  as the source does.
\<close>

fun flattenTraverse :: "Comment list \<Rightarrow> CommentNode \<Rightarrow> Comment list" where
  "flattenTraverse result (CommentNode c ch d) = foldl flattenTraverse (result @ [c]) ch"

definition flattenTree :: "CommentNode list \<Rightarrow> Comment list" where
  "flattenTree nodes = foldl flattenTraverse [] nodes"

fun maxDepthTraverse :: "nat \<Rightarrow> CommentNode \<Rightarrow> nat" where
  "maxDepthTraverse maxDepth (CommentNode c ch d) = foldl maxDepthTraverse (max maxDepth d) ch"

definition getMaxDepth :: "CommentNode list \<Rightarrow> nat" where
  "getMaxDepth nodes = (if length nodes = 0 then 0 else foldl maxDepthTraverse 0 nodes)"

fun countTraverse :: "nat \<Rightarrow> CommentNode \<Rightarrow> nat" where
  "countTraverse n (CommentNode c ch d) = foldl countTraverse (n + 1) ch"

definition countNodes :: "CommentNode list \<Rightarrow> nat" where
  "countNodes nodes = foldl countTraverse 0 nodes"

text \<open>All nodes of a tree, the node itself first.\<close>

fun subnodes :: "CommentNode \<Rightarrow> CommentNode list" where
  "subnodes (CommentNode c ch d) = CommentNode c ch d # concat (map subnodes ch)"

definition allNodes :: "CommentNode list \<Rightarrow> CommentNode list" where
  "allNodes nodes = concat (map subnodes nodes)"

section \<open>Record store (src/services/CommentService.ts)\<close>

text \<open>
  The store is the \<open>localStorage\<close> item \<open>discussion_comments\<close> (\<open>None\<close>: no item),
  present only in a browser (\<open>window\<close>).  The delays are not modelled.
\<close>

record Store =
  window :: bool
  item :: "Comment list option"

definition getInitialData :: "Comment list" where
  "getInitialData =
     [\<lparr>id_c = ''1'', parentId = None,
       content = ''This is the root comment of our discussion thread. It demonstrates how we can build infinitely nested conversations.'',
       author = ''Alice'', createdAt = ''2024-01-10T10:00:00Z'', optimistic = None\<rparr>,
      \<lparr>id_c = ''2'', parentId = Some ''1'',
       content = ''Great point! I have a follow-up question about the implementation details...'',
       author = ''Bob'', createdAt = ''2024-01-10T10:05:00Z'', optimistic = None\<rparr>,
      \<lparr>id_c = ''3'', parentId = Some ''2'',
       content = ''Let me answer that. The key is using a recursive component structure.'',
       author = ''Charlie'', createdAt = ''2024-01-10T10:10:00Z'', optimistic = None\<rparr>,
      \<lparr>id_c = ''4'', parentId = Some ''3'',
       content = ''Thanks for clarifying! This makes a lot of sense now.'',
       author = ''Bob'', createdAt = ''2024-01-10T10:15:00Z'', optimistic = None\<rparr>,
      \<lparr>id_c = ''5'', parentId = Some ''4'',
       content = ''This is getting deep! We're at level 4 now.'',
       author = ''David'', createdAt = ''2024-01-10T10:20:00Z'', optimistic = None\<rparr>,
      \<lparr>id_c = ''6'', parentId = Some ''1'',
       content = ''Another top-level reply here, starting a different branch of the conversation.'',
       author = ''Eve'', createdAt = ''2024-01-10T10:25:00Z'', optimistic = None\<rparr>,
      \<lparr>id_c = ''7'', parentId = Some ''6'',
       content = ''Nested under Eve's comment, this demonstrates parallel conversation threads.'',
       author = ''Frank'', createdAt = ''2024-01-10T10:30:00Z'', optimistic = None\<rparr>]"

definition getComments :: "Store \<Rightarrow> Comment list \<times> Store" where
  "getComments st =
     (if \<not> window st then ([], st)
      else (case item st of
              Some stored \<Rightarrow> (stored, st)
            | None \<Rightarrow> (getInitialData, st\<lparr>item := Some getInitialData\<rparr>)))"

text \<open>
  The argument of \<open>addComment\<close> is an \<open>Omit<Comment, 'id' | 'createdAt'>\<close>.  The
  new id and the time stamp come from \<open>Date.now()\<close>, \<open>Math.random()\<close> and
  \<open>new Date()\<close>; they are parameters.  Without a \<open>window\<close> there is no
  \<open>localStorage\<close> and the call is rejected.
\<close>

record CommentFields =
  f_parentId :: "string option"
  f_content :: string
  f_author :: string
  f_optimistic :: "bool option"

datatype store_error = StoreError

definition addComment :: "Store \<Rightarrow> CommentFields \<Rightarrow> string \<Rightarrow> string \<Rightarrow> store_error + (Comment \<times> Store)" where
  "addComment st cf newId now =
     (case getComments st of
        (stored, st1) \<Rightarrow>
          (let newComment = \<lparr>id_c = newId, parentId = f_parentId cf, content = f_content cf,
                              author = f_author cf, createdAt = now,
                              optimistic = f_optimistic cf\<rparr>
           in if \<not> window st then Inl StoreError
              else Inr (newComment, st1\<lparr>item := Some (stored @ [newComment])\<rparr>)))"

section \<open>Mutation coordinator (src/components/DiscussionThread.tsx)\<close>

text \<open>
  The state of the component is the \<open>comments\<close> array.  Two logs record the
  effects of a handler: the calls of the record store it has issued, and the alerts
  it has shown.
\<close>

datatype store_request = AddRequest CommentFields | DeleteRequest string

record ThreadState =
  comments :: "Comment list"
  requests :: "store_request list"
  alerts :: "string list"

text \<open>
  \<open>handleReply\<close>, up to its \<open>await\<close>: the optimistic comment is appended and
  \<open>CommentService.addComment\<close> is called.  The temporary id
  (\<open>temp_${Date.now()}_${Math.random()}\<close>) and the time stamp are parameters.
\<close>

definition optimisticComment :: "string \<Rightarrow> string \<Rightarrow> string \<Rightarrow> string \<Rightarrow> string \<Rightarrow> Comment" where
  "optimisticComment pid text name tempId now =
     \<lparr>id_c = tempId, parentId = Some pid, content = text, author = name, createdAt = now,
      optimistic = Some True\<rparr>"

definition replyFields :: "string \<Rightarrow> string \<Rightarrow> string \<Rightarrow> CommentFields" where
  "replyFields pid text name =
     \<lparr>f_parentId = Some pid, f_content = text, f_author = name, f_optimistic = None\<rparr>"

definition handleReply_begin :: "string \<Rightarrow> string \<Rightarrow> string \<Rightarrow> string \<Rightarrow> string \<Rightarrow> ThreadState \<Rightarrow> ThreadState" where
  "handleReply_begin pid text name tempId now st =
     st\<lparr>comments := comments st @ [optimisticComment pid text name tempId now],
        requests := requests st @ [AddRequest (replyFields pid text name)]\<rparr>"

text \<open>
  \<open>handleReply\<close>, after the \<open>await\<close>: the \<open>try\<close> branch on the store's comment,
  the \<open>catch\<close> branch on a rejection.  Both are updates of the state current at
  that time (\<open>setComments(prev => ...)\<close>).
\<close>

definition handleReply_end :: "string \<Rightarrow> store_error + Comment \<Rightarrow> ThreadState \<Rightarrow> ThreadState" where
  "handleReply_end tempId outcome st =
     (case outcome of
        Inr serverComment \<Rightarrow>
          st\<lparr>comments := map (\<lambda>c. if id_c c = tempId then serverComment else c) (comments st)\<rparr>
      | Inl err \<Rightarrow>
          st\<lparr>comments := filter (\<lambda>c. id_c c \<noteq> tempId) (comments st),
             alerts := alerts st @ [''Failed to post comment. Please try again.'']\<rparr>)"

text \<open>
  The whole of \<open>handleReply\<close> when nothing else happens while the store call is
  pending, against a store \<open>store\<close>.
\<close>

definition handleReply :: "Store \<Rightarrow> string \<Rightarrow> string \<Rightarrow> string \<Rightarrow> string \<Rightarrow> string \<Rightarrow> string \<Rightarrow> string \<Rightarrow> ThreadState \<Rightarrow> ThreadState" where
  "handleReply store pid text name tempId now newId storeNow st =
     handleReply_end tempId
       (map_sum (\<lambda>e. e) fst (addComment store (replyFields pid text name) newId storeNow))
       (handleReply_begin pid text name tempId now st)"

text \<open>
  \<open>String.prototype.trim\<close> removes the white space and the line terminators of
  ECMAScript from both ends: U+0009 to U+000D, U+0020, U+00A0, U+1680, U+2000 to
  U+200A, U+2028, U+2029, U+202F, U+205F, U+3000 and U+FEFF.  \<open>whiteSpace\<close> lists
  their UTF-8 encodings.  No encoding of a code point ends or starts inside another
  one, so these code points are removed from an end by removing their encodings
  there.
\<close>

definition whiteSpace :: "string list" where
  "whiteSpace =
     [[CHR 0x09],
      [CHR 0x0A],
      [CHR 0x0B],
      [CHR 0x0C],
      [CHR 0x0D],
      [CHR 0x20],
      [CHR 0xC2, CHR 0xA0],
      [CHR 0xE1, CHR 0x9A, CHR 0x80],
      [CHR 0xE2, CHR 0x80, CHR 0x80],
      [CHR 0xE2, CHR 0x80, CHR 0x81],
      [CHR 0xE2, CHR 0x80, CHR 0x82],
      [CHR 0xE2, CHR 0x80, CHR 0x83],
      [CHR 0xE2, CHR 0x80, CHR 0x84],
      [CHR 0xE2, CHR 0x80, CHR 0x85],
      [CHR 0xE2, CHR 0x80, CHR 0x86],
      [CHR 0xE2, CHR 0x80, CHR 0x87],
      [CHR 0xE2, CHR 0x80, CHR 0x88],
      [CHR 0xE2, CHR 0x80, CHR 0x89],
      [CHR 0xE2, CHR 0x80, CHR 0x8A],
      [CHR 0xE2, CHR 0x80, CHR 0xA8],
      [CHR 0xE2, CHR 0x80, CHR 0xA9],
      [CHR 0xE2, CHR 0x80, CHR 0xAF],
      [CHR 0xE2, CHR 0x81, CHR 0x9F],
      [CHR 0xE3, CHR 0x80, CHR 0x80],
      [CHR 0xEF, CHR 0xBB, CHR 0xBF]]"

text \<open>One step: the string without the member of \<open>ws\<close> it starts with, if there is one.\<close>

definition stripOne :: "string list \<Rightarrow> string \<Rightarrow> string option" where
  "stripOne ws s =
     (case find (\<lambda>w. w \<noteq> [] \<and> take (length w) s = w) ws of
        None \<Rightarrow> None
      | Some w \<Rightarrow> Some (drop (length w) s))"

function dropLeading :: "string list \<Rightarrow> string \<Rightarrow> string" where
  "dropLeading ws s = (case stripOne ws s of None \<Rightarrow> s | Some s' \<Rightarrow> dropLeading ws s')"
  by pat_completeness auto
termination
proof (relation "measure (\<lambda>(ws, s). length s)")
  show "wf (measure (\<lambda>(ws, s). length s))" by simp
next
  fix ws :: "string list" and s s' :: string
  assume "stripOne ws s = Some s'"
  then obtain w where w: "find (\<lambda>w. w \<noteq> [] \<and> take (length w) s = w) ws = Some w"
    and s': "s' = drop (length w) s"
    by (auto simp: stripOne_def split: option.splits)
  from w have w1: "w \<noteq> []" and w2: "take (length w) s = w"
    by (auto simp: find_Some_iff)
  from w1 have "0 < length w" by simp
  moreover have "length w \<le> length s"
  proof -
    have "length (take (length w) s) = length w" using w2 by simp
    then show ?thesis by simp
  qed
  ultimately have "length s - length w < length s" by linarith
  then show "((ws, s'), (ws, s)) \<in> measure (\<lambda>(ws, s). length s)"
    using s' by simp
qed

definition trim :: "string \<Rightarrow> string" where
  "trim s = rev (dropLeading (map rev whiteSpace) (rev (dropLeading whiteSpace s)))"

text \<open>
  \<open>CommentItem.handleSubmitReply\<close>: the guard \<open>replyContent.trim() && replyAuthor.trim()\<close>
  (a string is truthy when it is not empty), then \<open>onReply\<close>, which is
  \<open>handleReply\<close>, and the reset of the form.  This is the only place where
  \<open>handleReply\<close> is called.
\<close>

record ReplyForm =
  isReplying :: bool
  replyContent :: string
  replyAuthor :: string

definition handleSubmitReply :: "string \<Rightarrow> string \<Rightarrow> string \<Rightarrow> ReplyForm \<times> ThreadState \<Rightarrow> ReplyForm \<times> ThreadState" where
  "handleSubmitReply nodeId tempId now fs =
     (case fs of (form, st) \<Rightarrow>
       (if trim (replyContent form) \<noteq> [] \<and> trim (replyAuthor form) \<noteq> []
        then (\<lparr>isReplying = False, replyContent = [], replyAuthor = []\<rparr>,
              handleReply_begin nodeId (replyContent form) (replyAuthor form) tempId now st)
        else (form, st)))"

text \<open>
  \<open>handleDelete\<close>.  The \<open>while\<close> loop walks from a comment to its ancestors until
  it meets the id to delete or \<open>find\<close> yields nothing; on a cyclic parent chain
  that does not contain the id it runs forever, which is the value \<open>None\<close>.
\<close>

partial_function (option) reachesTarget :: "Comment list \<Rightarrow> string \<Rightarrow> Comment option \<Rightarrow> bool option" where
  "reachesTarget cs i current =
     (case current of
        None \<Rightarrow> Some False
      | Some cur \<Rightarrow>
          (if id_c cur = i then Some True
           else reachesTarget cs i
                  (case parentId cur of None \<Rightarrow> None | Some p \<Rightarrow> find (\<lambda>x. id_c x = p) cs)))"

fun filterM :: "('a \<Rightarrow> bool option) \<Rightarrow> 'a list \<Rightarrow> 'a list option" where
  "filterM p [] = Some []"
| "filterM p (x # xs) =
     (case p x of
        None \<Rightarrow> None
      | Some b \<Rightarrow> (case filterM p xs of None \<Rightarrow> None | Some ys \<Rightarrow> Some (if b then x # ys else ys)))"

definition deletedComments :: "Comment list \<Rightarrow> string \<Rightarrow> Comment list option" where
  "deletedComments cs i = filterM (\<lambda>c. reachesTarget cs i (Some c)) cs"

text \<open>
  \<open>handleDelete\<close>, up to its \<open>await\<close>: \<open>confirmed\<close> is the answer of the
  \<open>confirm\<close> dialog.  The result is the new state and the retained
  \<open>deletedComments\<close>.  \<open>includes\<close> compares object references; the elements of
  \<open>deletedComments\<close> are elements of the same array, and the filter depends on
  the fields of an element only, so comparing the records gives the same result.
\<close>

definition handleDelete_begin :: "bool \<Rightarrow> string \<Rightarrow> ThreadState \<Rightarrow> (ThreadState \<times> Comment list) option" where
  "handleDelete_begin confirmed i st =
     (if \<not> confirmed then Some (st, [])
      else (case deletedComments (comments st) i of
              None \<Rightarrow> None
            | Some deleted \<Rightarrow>
                Some (st\<lparr>comments := filter (\<lambda>c. c \<notin> set deleted) (comments st),
                         requests := requests st @ [DeleteRequest i]\<rparr>, deleted)))"

text \<open>\<open>handleDelete\<close>, after the \<open>await\<close>: nothing on success, the \<open>catch\<close> branch on a rejection.\<close>

definition handleDelete_end :: "Comment list \<Rightarrow> store_error + unit \<Rightarrow> ThreadState \<Rightarrow> ThreadState" where
  "handleDelete_end deleted outcome st =
     (case outcome of
        Inr u \<Rightarrow> st
      | Inl err \<Rightarrow>
          st\<lparr>comments := comments st @ deleted,
             alerts := alerts st @ [''Failed to delete comment. Please try again.'']\<rparr>)"

section \<open>The invariants of the flat collection\<close>

text \<open>
  The parent relation of a flat collection: the pairs (child id, parent id) whose
  parent is present.  A collection is acyclic when no id is its own ancestor.
\<close>

definition parentRel :: "Comment list \<Rightarrow> (string \<times> string) set" where
  "parentRel cs = {(id_c c, p) | c p. c \<in> set cs \<and> parentId c = Some p \<and> p \<in> id_c ` set cs}"

definition uniqueIds :: "Comment list \<Rightarrow> bool" where
  "uniqueIds cs = distinct (map id_c cs)"

definition acyclicComments :: "Comment list \<Rightarrow> bool" where
  "acyclicComments cs = acyclic (parentRel cs)"

text \<open>A comment is a root of the forest when it has no parent or its parent is absent.\<close>

definition isRoot :: "Comment list \<Rightarrow> Comment \<Rightarrow> bool" where
  "isRoot cs c = (case parentId c of None \<Rightarrow> True | Some p \<Rightarrow> p \<notin> id_c ` set cs)"

text \<open>
  For the proofs: the ids of the comments whose parent is \<open>k\<close>, and of the roots, in
  the order of the collection; the ids that descend from \<open>k\<close> (\<open>k\<close> included); the
  comparator of the sort on comments.
\<close>

definition childrenOf :: "Comment list \<Rightarrow> string \<Rightarrow> Comment list" where
  "childrenOf cs k = filter (\<lambda>c. parentId c = Some k) cs"

definition rootsOf :: "Comment list \<Rightarrow> Comment list" where
  "rootsOf cs = filter (isRoot cs) cs"

definition descendants :: "Comment list \<Rightarrow> string \<Rightarrow> string set" where
  "descendants cs k = {x. (x, k) \<in> (parentRel cs)\<^sup>*}"

definition compareCreatedAt :: "(string \<Rightarrow> int option) \<Rightarrow> Comment \<Rightarrow> Comment \<Rightarrow> int" where
  "compareCreatedAt tm a b = compareTime (tm (createdAt a)) (tm (createdAt b))"

text \<open>
  The heap after the second pass of \<open>buildTree\<close> over \<open>cs\<close>: every comment has its
  node object, whose children are the comments that name it as parent, in the order
  of the collection.
\<close>

definition linked :: "Comment list \<Rightarrow> heap \<Rightarrow> bool" where
  "linked cs h =
     (\<forall>c \<in> set cs. \<exists>d. h (id_c c) =
        Some \<lparr>obj_comment = c, obj_children = map id_c (childrenOf cs (id_c c)), obj_depth = d\<rparr>)"

text \<open>The same while the second pass has met the comments \<open>ps\<close> only.\<close>

definition linkedPrefix :: "Comment list \<Rightarrow> Comment list \<Rightarrow> heap \<Rightarrow> bool" where
  "linkedPrefix cs ps h =
     ((\<forall>c \<in> set cs. \<exists>d. h (id_c c) =
        Some \<lparr>obj_comment = c, obj_children = map id_c (childrenOf ps (id_c c)), obj_depth = d\<rparr>)
      \<and> (\<forall>k. k \<notin> id_c ` set cs \<longrightarrow> h k = None))"

text \<open>The heap \<open>h\<close> with the children of the nodes in \<open>A\<close> sorted.\<close>

definition sortedOn :: "(string \<Rightarrow> int option) \<Rightarrow> heap \<Rightarrow> string set \<Rightarrow> heap" where
  "sortedOn tm h A =
     (\<lambda>k. if k \<in> A
          then map_option (\<lambda>node. node\<lparr>obj_children := sortRefs tm h (obj_children node)\<rparr>) (h k)
          else h k)"

text \<open>
  What the tree below the comment \<open>c\<close> has to be: its nodes are the descendants of
  \<open>c\<close>, each once, and the children of every node are the comments that name it as
  parent, sorted.
\<close>

definition treeOk :: "(string \<Rightarrow> int option) \<Rightarrow> Comment list \<Rightarrow> Comment \<Rightarrow> CommentNode \<Rightarrow> bool" where
  "treeOk tm cs c t =
     (comment t = c
      \<and> set (map (id_c \<circ> comment) (subnodes t)) = descendants cs (id_c c)
      \<and> distinct (map (id_c \<circ> comment) (subnodes t))
      \<and> (\<forall>M \<in> set (subnodes t). comment M \<in> set cs
            \<and> map comment (children M) = sortBy (compareCreatedAt tm) (childrenOf cs (id_c (comment M)))))"

text \<open>The time value of a comment whose time stamp is parseable.\<close>

definition timeOf :: "(string \<Rightarrow> int option) \<Rightarrow> Comment \<Rightarrow> int" where
  "timeOf tm c = (case tm (createdAt c) of None \<Rightarrow> 0 | Some t \<Rightarrow> t)"

definition parseable :: "(string \<Rightarrow> int option) \<Rightarrow> Comment list \<Rightarrow> bool" where
  "parseable tm cs = (\<forall>c \<in> set cs. tm (createdAt c) \<noteq> None)"

section \<open>Example collections\<close>

text \<open>A chain 1, 2, 3 listed with every child in front of its parent.\<close>

definition childFirst :: "Comment list" where
  "childFirst =
     [\<lparr>id_c = ''3'', parentId = Some ''2'', content = ''third'', author = ''Charlie'',
       createdAt = ''2024-01-10T10:10:00Z'', optimistic = None\<rparr>,
      \<lparr>id_c = ''2'', parentId = Some ''1'', content = ''second'', author = ''Bob'',
       createdAt = ''2024-01-10T10:05:00Z'', optimistic = None\<rparr>,
      \<lparr>id_c = ''1'', parentId = None, content = ''first'', author = ''Alice'',
       createdAt = ''2024-01-10T10:00:00Z'', optimistic = None\<rparr>]"

text \<open>
  A collection in which a child (3) stands in front of its parent (1), two siblings
  (3 and 2) have the same time stamp, and one comment (4) names an absent parent.
\<close>

definition tieExample :: "Comment list" where
  "tieExample =
     [\<lparr>id_c = ''3'', parentId = Some ''1'', content = ''third'', author = ''Charlie'',
       createdAt = ''2024-01-10T10:05:00Z'', optimistic = None\<rparr>,
      \<lparr>id_c = ''1'', parentId = None, content = ''first'', author = ''Alice'',
       createdAt = ''2024-01-10T10:00:00Z'', optimistic = None\<rparr>,
      \<lparr>id_c = ''2'', parentId = Some ''1'', content = ''second'', author = ''Bob'',
       createdAt = ''2024-01-10T10:05:00Z'', optimistic = None\<rparr>,
      \<lparr>id_c = ''4'', parentId = Some ''9'', content = ''orphan'', author = ''Dan'',
       createdAt = ''2024-01-10T09:00:00Z'', optimistic = None\<rparr>,
      \<lparr>id_c = ''5'', parentId = Some ''3'', content = ''fifth'', author = ''Eve'',
       createdAt = ''2024-01-10T10:06:00Z'', optimistic = None\<rparr>]"

definition tieRank :: "string \<Rightarrow> nat" where
  "tieRank s = (if s = ''1'' \<or> s = ''4'' then 0 else if s = ''5'' then 2 else 1)"

text \<open>In the seeded dataset the id of a parent is smaller than that of its child.\<close>

definition seedRank :: "string \<Rightarrow> nat" where
  "seedRank s = (case s of [] \<Rightarrow> 0 | c # cs \<Rightarrow> of_char c)"

text \<open>The pairs (id, depth) of the nodes of a forest, in pre-order.\<close>

definition depths :: "CommentNode list \<Rightarrow> (string \<times> nat) list" where
  "depths nodes = map (\<lambda>n. (id_c (comment n), depth n)) (allNodes nodes)"

section \<open>Auxiliary lemmas\<close>

subsection \<open>The recursion budget\<close>

text \<open>A result obtained within a budget is the result with every larger budget.\<close>

lemma forEachM_mono:
  assumes "\<And>x s s'. x \<in> set xs \<Longrightarrow> f x s = Some s' \<Longrightarrow> g x s = Some s'"
  shows "forEachM f xs s = Some s' \<Longrightarrow> forEachM g xs s = Some s'"
  using assms
proof (induction xs arbitrary: s)
  case Nil
  then show ?case by simp
next
  case (Cons a xs)
  from Cons.prems(1) obtain s1 where s1: "f a s = Some s1" "forEachM f xs s1 = Some s'"
    by (auto split: option.splits)
  have "g a s = Some s1" using Cons.prems(2)[of a s s1] s1(1) by simp
  moreover have "forEachM g xs s1 = Some s'"
    using Cons.IH[OF s1(2)] Cons.prems(2) by simp
  ultimately show ?case by simp
qed

lemma sortChildren_Suc:
  "sortChildren tm n r h = Some h' \<Longrightarrow> sortChildren tm (Suc n) r h = Some h'"
proof (induction n arbitrary: r h h')
  case 0
  then show ?case by simp
next
  case (Suc n)
  from Suc.prems obtain node where node: "h r = Some node"
    by (auto split: option.splits)
  let ?sorted = "sortRefs tm h (obj_children node)"
  let ?h1 = "h(r \<mapsto> node\<lparr>obj_children := ?sorted\<rparr>)"
  from Suc.prems node have "forEachM (sortChildren tm n) ?sorted ?h1 = Some h'"
    by (simp add: Let_def)
  then have "forEachM (sortChildren tm (Suc n)) ?sorted ?h1 = Some h'"
    by (rule forEachM_mono[rotated]) (rule Suc.IH)
  with node show ?case by (simp add: Let_def)
qed

lemma those_mono:
  assumes "\<And>x y. x \<in> set xs \<Longrightarrow> f x = Some y \<Longrightarrow> g x = Some y"
  shows "those (map f xs) = Some ys \<Longrightarrow> those (map g xs) = Some ys"
  using assms
proof (induction xs arbitrary: ys)
  case Nil
  then show ?case by simp
next
  case (Cons a xs)
  from Cons.prems(1) obtain y zs where y: "f a = Some y" "those (map f xs) = Some zs" "ys = y # zs"
    by (auto split: option.splits)
  have "g a = Some y" using Cons.prems(2)[of a y] y(1) by simp
  moreover have "those (map g xs) = Some zs" using Cons.IH[OF y(2)] Cons.prems(2) by simp
  ultimately show ?case using y(3) by simp
qed

lemma toTree_Suc:
  "toTree n h r = Some t \<Longrightarrow> toTree (Suc n) h r = Some t"
proof (induction n arbitrary: r t)
  case 0
  then show ?case by simp
next
  case (Suc n)
  from Suc.prems obtain node ts where node: "h r = Some node"
    "those (map (toTree n h) (obj_children node)) = Some ts"
    "t = CommentNode (obj_comment node) ts (obj_depth node)"
    by (auto split: option.splits)
  from node(2) have "those (map (toTree (Suc n) h) (obj_children node)) = Some ts"
    by (rule those_mono[rotated]) (rule Suc.IH)
  with node(1,3) show ?case by simp
qed

subsection \<open>The sort\<close>

lemma mset_insertBy: "mset (insertBy cmp x xs) = add_mset x (mset xs)"
  by (induction xs) auto

lemma mset_sortBy: "mset (sortBy cmp xs) = mset xs"
  by (induction xs) (auto simp: sortBy_def mset_insertBy)

lemma set_sortBy: "set (sortBy cmp xs) = set xs"
  by (metis mset_sortBy set_mset_mset)

lemma distinct_sortBy: "distinct (sortBy cmp xs) = distinct xs"
  by (metis mset_sortBy mset_eq_imp_distinct_iff)

lemma insertBy_map:
  assumes "\<And>y. y \<in> set xs \<Longrightarrow> cmp' (g x) (g y) = cmp x y"
  shows "insertBy cmp' (g x) (map g xs) = map g (insertBy cmp x xs)"
  using assms by (induction xs) auto

lemma sortBy_map:
  assumes "\<And>x y. x \<in> set xs \<Longrightarrow> y \<in> set xs \<Longrightarrow> cmp' (g x) (g y) = cmp x y"
  shows "sortBy cmp' (map g xs) = map g (sortBy cmp xs)"
  using assms
proof (induction xs)
  case Nil
  then show ?case by (simp add: sortBy_def)
next
  case (Cons a xs)
  have ih: "sortBy cmp' (map g xs) = map g (sortBy cmp xs)"
    using Cons by simp
  have "insertBy cmp' (g a) (map g (sortBy cmp xs)) = map g (insertBy cmp a (sortBy cmp xs))"
    by (rule insertBy_map) (simp add: set_sortBy Cons.prems)
  with ih show ?case by (simp add: sortBy_def)
qed

lemma insertBy_insort_key:
  "insertBy (\<lambda>a b. f a - f b) x xs = insort_key f x xs" for f :: "'a \<Rightarrow> int"
  by (induction xs) auto

lemma sortBy_sort_key:
  "sortBy (\<lambda>a b. f a - f b) xs = sort_key f xs" for f :: "'a \<Rightarrow> int"
  by (induction xs) (auto simp: sortBy_def insertBy_insort_key)

lemma sortBy_cong:
  assumes "\<And>x y. x \<in> set xs \<Longrightarrow> y \<in> set xs \<Longrightarrow> cmp' x y = cmp x y"
  shows "sortBy cmp' xs = sortBy cmp xs"
  using sortBy_map[of xs cmp' "\<lambda>x. x" cmp] assms by simp

subsection \<open>Loops over lists\<close>

lemma forEachM_union:
  assumes step: "\<And>x B. x \<in> set xs \<Longrightarrow> D x \<inter> B = {} \<Longrightarrow> f x (H B) = Some (H (B \<union> D x))"
    and "distinct xs"
    and "\<And>x y. x \<in> set xs \<Longrightarrow> y \<in> set xs \<Longrightarrow> x \<noteq> y \<Longrightarrow> D x \<inter> D y = {}"
    and "\<And>x. x \<in> set xs \<Longrightarrow> D x \<inter> B = {}"
  shows "forEachM f xs (H B) = Some (H (B \<union> \<Union> (D ` set xs)))"
  using assms
proof (induction xs arbitrary: B)
  case Nil
  then show ?case by simp
next
  case (Cons a xs)
  have 1: "f a (H B) = Some (H (B \<union> D a))"
    using Cons.prems(1)[of a B] Cons.prems(4)[of a] by simp
  have 2: "forEachM f xs (H (B \<union> D a)) = Some (H ((B \<union> D a) \<union> \<Union> (D ` set xs)))"
  proof (rule Cons.IH)
    show "f x (H B') = Some (H (B' \<union> D x))" if "x \<in> set xs" "D x \<inter> B' = {}" for x B'
      using that Cons.prems(1)[of x B'] by simp
    show "distinct xs" using Cons.prems(2) by simp
    show "D x \<inter> D y = {}" if "x \<in> set xs" "y \<in> set xs" "x \<noteq> y" for x y
      using that Cons.prems(3)[of x y] by simp
    show "D x \<inter> (B \<union> D a) = {}" if "x \<in> set xs" for x
    proof -
      have "x \<noteq> a" using that Cons.prems(2) by auto
      then have "D x \<inter> D a = {}" using Cons.prems(3)[of x a] that by simp
      moreover have "D x \<inter> B = {}" using Cons.prems(4)[of x] that by simp
      ultimately show ?thesis by blast
    qed
  qed
  have 3: "(B \<union> D a) \<union> \<Union> (D ` set xs) = B \<union> \<Union> (D ` set (a # xs))" by auto
  from 1 2 3 show ?case by simp
qed

lemma those_map_all2:
  assumes "\<And>x. x \<in> set xs \<Longrightarrow> \<exists>y. f x = Some y \<and> Q x y"
  shows "\<exists>ys. those (map f xs) = Some ys \<and> list_all2 Q xs ys"
  using assms
proof (induction xs)
  case Nil
  then show ?case by simp
next
  case (Cons a xs)
  obtain y where y: "f a = Some y" "Q a y" using Cons.prems[of a] by auto
  obtain ys where ys: "those (map f xs) = Some ys" "list_all2 Q xs ys"
    using Cons by auto
  from y ys show ?case by simp
qed


subsection \<open>The parent relation\<close>

lemma parentRel_ids: "(x, k) \<in> parentRel cs \<Longrightarrow> x \<in> id_c ` set cs \<and> k \<in> id_c ` set cs"
  by (auto simp: parentRel_def)

lemma finite_parentRel: "finite (parentRel cs)"
proof -
  have "parentRel cs \<subseteq> (id_c ` set cs) \<times> (id_c ` set cs)"
    using parentRel_ids by auto
  then show ?thesis by (rule finite_subset) simp
qed

lemma single_valued_parentRel: "uniqueIds cs \<Longrightarrow> single_valued (parentRel cs)"
  unfolding single_valued_def parentRel_def uniqueIds_def
  by (auto simp: distinct_map inj_on_def)

lemma descendants_self: "k \<in> descendants cs k"
  by (simp add: descendants_def)

lemma descendants_ids: "k \<in> id_c ` set cs \<Longrightarrow> descendants cs k \<subseteq> id_c ` set cs"
proof
  fix x assume k: "k \<in> id_c ` set cs" and "x \<in> descendants cs k"
  then have "(x, k) \<in> (parentRel cs)\<^sup>*" by (simp add: descendants_def)
  then show "x \<in> id_c ` set cs"
    using k by (induction rule: converse_rtrancl_induct) (simp_all add: parentRel_ids)
qed


lemma parentRel_iff:
  "(x, k) \<in> parentRel cs \<longleftrightarrow> (\<exists>c \<in> set cs. id_c c = x \<and> parentId c = Some k) \<and> k \<in> id_c ` set cs"
  by (auto simp: parentRel_def)

lemma set_childrenOf:
  "k \<in> id_c ` set cs \<Longrightarrow> id_c ` set (childrenOf cs k) = {x. (x, k) \<in> parentRel cs}"
  by (auto simp: childrenOf_def parentRel_iff)

lemma childrenOf_subset: "set (childrenOf cs k) \<subseteq> set cs"
  by (auto simp: childrenOf_def)

lemma rootsOf_subset: "set (rootsOf cs) \<subseteq> set cs"
  by (auto simp: rootsOf_def)

lemma distinct_childrenOf: "uniqueIds cs \<Longrightarrow> distinct (map id_c (childrenOf cs k))"
  by (simp add: uniqueIds_def childrenOf_def distinct_map_filter)

lemma distinct_rootsOf: "uniqueIds cs \<Longrightarrow> distinct (map id_c (rootsOf cs))"
  by (simp add: uniqueIds_def rootsOf_def distinct_map_filter)

lemma uniqueIds_inj: "uniqueIds cs \<Longrightarrow> inj_on id_c (set cs)"
  by (simp add: uniqueIds_def distinct_map)

lemma descendants_unfold:
  "descendants cs k = insert k (\<Union>x \<in> {x. (x, k) \<in> parentRel cs}. descendants cs x)"
proof (rule set_eqI)
  fix y
  have "(y, k) \<in> (parentRel cs)\<^sup>* \<longleftrightarrow> y = k \<or> (\<exists>x. (y, x) \<in> (parentRel cs)\<^sup>* \<and> (x, k) \<in> parentRel cs)"
    by (metis rtrancl.simps)
  then show "y \<in> descendants cs k \<longleftrightarrow> y \<in> insert k (\<Union>x \<in> {x. (x, k) \<in> parentRel cs}. descendants cs x)"
    by (auto simp: descendants_def)
qed

lemma child_descendants_subset:
  "(x, k) \<in> parentRel cs \<Longrightarrow> descendants cs x \<subseteq> descendants cs k"
  by (auto simp: descendants_def intro: rtrancl_into_rtrancl)

lemma parent_not_descendant:
  assumes "acyclicComments cs" and "(x, k) \<in> parentRel cs"
  shows "k \<notin> descendants cs x"
proof
  assume "k \<in> descendants cs x"
  then have "(k, x) \<in> (parentRel cs)\<^sup>*" by (simp add: descendants_def)
  with assms(2) have "(x, x) \<in> (parentRel cs)\<^sup>+" by (rule rtrancl_into_trancl2)
  with assms(1) show False by (simp add: acyclicComments_def acyclic_def)
qed

lemma finite_descendants: "k \<in> id_c ` set cs \<Longrightarrow> finite (descendants cs k)"
  by (rule finite_subset[OF descendants_ids]) simp_all

lemma card_descendants_le: "k \<in> id_c ` set cs \<Longrightarrow> card (descendants cs k) \<le> length cs"
proof -
  assume k: "k \<in> id_c ` set cs"
  have "card (descendants cs k) \<le> card (id_c ` set cs)"
    using descendants_ids[OF k] by (intro card_mono) simp_all
  also have "\<dots> \<le> card (set cs)" by (rule card_image_le) simp
  also have "\<dots> \<le> length cs" by (rule card_length)
  finally show ?thesis .
qed

lemma card_descendants_child:
  assumes "acyclicComments cs" and "(x, k) \<in> parentRel cs"
  shows "card (descendants cs x) < card (descendants cs k)"
proof -
  have k: "k \<in> id_c ` set cs" using assms(2) parentRel_ids by blast
  have "descendants cs x \<subset> descendants cs k"
    using child_descendants_subset[OF assms(2)] parent_not_descendant[OF assms] descendants_self[of k cs]
    by blast
  then show ?thesis using finite_descendants[OF k] by (simp add: psubset_card_mono)
qed

lemma siblings_disjoint:
  assumes U: "uniqueIds cs" and A: "acyclicComments cs"
    and 1: "(x, k) \<in> parentRel cs" and 2: "(y, k) \<in> parentRel cs" and ne: "x \<noteq> y"
  shows "descendants cs x \<inter> descendants cs y = {}"
proof -
  have sv: "single_valued (parentRel cs)" using U by (rule single_valued_parentRel)
  have no: "\<not> (a, b) \<in> (parentRel cs)\<^sup>*"
    if ak: "(a, k) \<in> parentRel cs" and bk: "(b, k) \<in> parentRel cs" and ab: "a \<noteq> b" for a b
  proof
    assume "(a, b) \<in> (parentRel cs)\<^sup>*"
    then obtain z where z: "(a, z) \<in> parentRel cs" "(z, b) \<in> (parentRel cs)\<^sup>*"
      using ab by (auto elim: converse_rtranclE)
    from sv z(1) ak have "z = k" by (auto dest: single_valuedD)
    with z(2) have "k \<in> descendants cs b" by (simp add: descendants_def)
    with parent_not_descendant[OF A bk] show False by simp
  qed
  show ?thesis
  proof (rule ccontr)
    assume "descendants cs x \<inter> descendants cs y \<noteq> {}"
    then obtain w where w: "(w, x) \<in> (parentRel cs)\<^sup>*" "(w, y) \<in> (parentRel cs)\<^sup>*"
      by (auto simp: descendants_def)
    from single_valued_confluent[OF sv w] have "(x, y) \<in> (parentRel cs)\<^sup>* \<or> (y, x) \<in> (parentRel cs)\<^sup>*" .
    with no[OF 1 2 ne] no[OF 2 1] ne show False by auto
  qed
qed

lemma root_no_parent:
  assumes U: "uniqueIds cs" and c: "c \<in> set cs" and r: "isRoot cs c"
  shows "(id_c c, p) \<notin> parentRel cs"
proof
  assume "(id_c c, p) \<in> parentRel cs"
  then obtain c' where c': "c' \<in> set cs" "id_c c' = id_c c" "parentId c' = Some p" "p \<in> id_c ` set cs"
    by (auto simp: parentRel_iff)
  from uniqueIds_inj[OF U] c c'(1,2) have "c' = c" by (auto dest: inj_onD)
  with c' r show False by (auto simp: isRoot_def)
qed

lemma roots_disjoint:
  assumes U: "uniqueIds cs" and 1: "a \<in> set (rootsOf cs)" and 2: "b \<in> set (rootsOf cs)"
    and ne: "id_c a \<noteq> id_c b"
  shows "descendants cs (id_c a) \<inter> descendants cs (id_c b) = {}"
proof -
  have sv: "single_valued (parentRel cs)" using U by (rule single_valued_parentRel)
  have no: "\<not> (id_c r, z) \<in> (parentRel cs)\<^sup>*" if rr: "r \<in> set (rootsOf cs)" and rz: "id_c r \<noteq> z" for r z
  proof
    assume "(id_c r, z) \<in> (parentRel cs)\<^sup>*"
    then obtain p where "(id_c r, p) \<in> parentRel cs"
      using rz by (auto elim: converse_rtranclE)
    moreover have "r \<in> set cs" "isRoot cs r" using rr by (auto simp: rootsOf_def)
    ultimately show False using root_no_parent[OF U] by blast
  qed
  show ?thesis
  proof (rule ccontr)
    assume "descendants cs (id_c a) \<inter> descendants cs (id_c b) \<noteq> {}"
    then obtain w where w: "(w, id_c a) \<in> (parentRel cs)\<^sup>*" "(w, id_c b) \<in> (parentRel cs)\<^sup>*"
      by (auto simp: descendants_def)
    from single_valued_confluent[OF sv w] no[OF 1 ne] no[OF 2 ne[symmetric]] show False by auto
  qed
qed

lemma roots_cover:
  assumes A: "acyclicComments cs"
  shows "x \<in> id_c ` set cs \<Longrightarrow> \<exists>r \<in> set (rootsOf cs). x \<in> descendants cs (id_c r)"
proof -
  have wf: "wf ((parentRel cs)\<inverse>)"
    using finite_parentRel A by (auto simp: acyclicComments_def intro: finite_acyclic_wf_converse)
  show "x \<in> id_c ` set cs \<Longrightarrow> \<exists>r \<in> set (rootsOf cs). x \<in> descendants cs (id_c r)"
    using wf
  proof (induction x rule: wf_induct_rule)
    case (less x)
    from less.prems obtain c where c: "c \<in> set cs" "id_c c = x" by auto
    show ?case
    proof (cases "isRoot cs c")
      case True
      then have "c \<in> set (rootsOf cs)" using c by (simp add: rootsOf_def)
      then show ?thesis using c descendants_self by blast
    next
      case False
      then obtain p where p: "parentId c = Some p" "p \<in> id_c ` set cs"
        by (auto simp: isRoot_def split: option.splits)
      then have e: "(x, p) \<in> parentRel cs" using c by (auto simp: parentRel_iff)
      then obtain r where r: "r \<in> set (rootsOf cs)" "p \<in> descendants cs (id_c r)"
        using less.IH[of p] p(2) by auto
      from e r(2) have "x \<in> descendants cs (id_c r)"
        by (auto simp: descendants_def intro: converse_rtrancl_into_rtrancl)
      with r(1) show ?thesis by blast
    qed
  qed
qed

subsection \<open>The first and the second pass\<close>

lemma indexComments_snoc:
  "indexComments (xs @ [x]) = (indexComments xs)(id_c x \<mapsto> newNode x)"
  by (simp add: indexComments_def)

lemma indexComments_unique:
  "distinct (map id_c cs) \<Longrightarrow>
     (\<forall>c \<in> set cs. indexComments cs (id_c c) = Some (newNode c))
     \<and> (\<forall>k. k \<notin> id_c ` set cs \<longrightarrow> indexComments cs k = None)"
proof (induction cs rule: rev_induct)
  case Nil
  then show ?case by (simp add: indexComments_def)
next
  case (snoc x xs)
  then show ?case by (auto simp: indexComments_snoc)
qed

lemma linkedPrefix_index:
  "uniqueIds cs \<Longrightarrow> linkedPrefix cs [] (indexComments cs)"
  using indexComments_unique[of cs]
  by (auto simp: linkedPrefix_def uniqueIds_def childrenOf_def newNode_def)

lemma childrenOf_snoc:
  "childrenOf (ps @ [x]) k = childrenOf ps k @ (if parentId x = Some k then [x] else [])"
  by (simp add: childrenOf_def)

lemma link_step:
  assumes U: "uniqueIds cs" and x: "x \<in> set cs" and inv: "linkedPrefix cs ps m"
  shows "\<exists>m'. link (m, roots) x = (m', roots @ (if isRoot cs x then [id_c x] else []))
           \<and> linkedPrefix cs (ps @ [x]) m'"
proof -
  have inj: "inj_on id_c (set cs)" using U by (rule uniqueIds_inj)
  from inv x obtain d where node: "m (id_c x) = Some \<lparr>obj_comment = x, obj_children = map id_c (childrenOf ps (id_c x)), obj_depth = d\<rparr>"
    by (auto simp: linkedPrefix_def)
  show ?thesis
  proof (cases "parentId x")
    case None
    then have "link (m, roots) x = (m, roots @ [id_c x])" using node by (simp add: link_def)
    moreover have "isRoot cs x" using None by (simp add: isRoot_def)
    moreover have "linkedPrefix cs (ps @ [x]) m"
      using inv None by (simp add: linkedPrefix_def childrenOf_snoc)
    ultimately show ?thesis by simp
  next
    case (Some pid)
    show ?thesis
    proof (cases "pid \<in> id_c ` set cs")
      case False
      then have "m pid = None" using inv by (simp add: linkedPrefix_def)
      then have "link (m, roots) x = (m, roots @ [id_c x])" using node Some by (simp add: link_def)
      moreover have "isRoot cs x" using Some False by (simp add: isRoot_def)
      moreover have "linkedPrefix cs (ps @ [x]) m"
        unfolding linkedPrefix_def
      proof (intro conjI ballI)
        fix c assume c: "c \<in> set cs"
        then have "Some pid \<noteq> Some (id_c c)" using False by auto
        then show "\<exists>d. m (id_c c) = Some \<lparr>obj_comment = c, obj_children = map id_c (childrenOf (ps @ [x]) (id_c c)), obj_depth = d\<rparr>"
          using inv c Some by (simp add: linkedPrefix_def childrenOf_snoc)
      next
        show "\<forall>k. k \<notin> id_c ` set cs \<longrightarrow> m k = None" using inv by (simp add: linkedPrefix_def)
      qed
      ultimately show ?thesis by simp
    next
      case True
      then obtain pc where pc: "pc \<in> set cs" "id_c pc = pid" by auto
      from inv pc obtain dp where parent: "m pid = Some \<lparr>obj_comment = pc, obj_children = map id_c (childrenOf ps pid), obj_depth = dp\<rparr>"
        by (auto simp: linkedPrefix_def)
      define m1 where "m1 = m(id_c x \<mapsto> \<lparr>obj_comment = x, obj_children = map id_c (childrenOf ps (id_c x)), obj_depth = dp + 1\<rparr>)"
      have "\<exists>d1. m1 pid = Some \<lparr>obj_comment = pc, obj_children = map id_c (childrenOf ps pid), obj_depth = d1\<rparr>"
      proof (cases "pid = id_c x")
        case True
        with pc x inj have "pc = x" by (auto dest: inj_onD)
        with True show ?thesis by (simp add: m1_def)
      next
        case False
        with parent show ?thesis by (simp add: m1_def)
      qed
      then obtain d1 where parent1: "m1 pid = Some \<lparr>obj_comment = pc, obj_children = map id_c (childrenOf ps pid), obj_depth = d1\<rparr>"
        by blast
      define m' where "m' = m1(pid \<mapsto> \<lparr>obj_comment = pc, obj_children = map id_c (childrenOf ps pid) @ [id_c x], obj_depth = d1\<rparr>)"
      have l0: "link (m, roots) x =
          (case m1 pid of None \<Rightarrow> (m1, roots)
           | Some parent1 \<Rightarrow> (m1(pid \<mapsto> parent1\<lparr>obj_children := obj_children parent1 @ [id_c x]\<rparr>), roots))"
        unfolding m1_def using node Some parent by (simp add: link_def)
      have l: "link (m, roots) x = (m', roots)"
        unfolding l0 m'_def using parent1 by simp
      have nr: "\<not> isRoot cs x" using Some True by (simp add: isRoot_def)
      have "linkedPrefix cs (ps @ [x]) m'"
        unfolding linkedPrefix_def
      proof (intro conjI ballI allI impI)
        fix c assume c: "c \<in> set cs"
        show "\<exists>d. m' (id_c c) = Some \<lparr>obj_comment = c, obj_children = map id_c (childrenOf (ps @ [x]) (id_c c)), obj_depth = d\<rparr>"
        proof (cases "id_c c = pid")
          case True
          with pc c inj have "c = pc" by (auto dest: inj_onD)
          then show ?thesis using True Some by (simp add: m'_def childrenOf_snoc)
        next
          case False
          then have np: "parentId x \<noteq> Some (id_c c)" using Some by simp
          show ?thesis
          proof (cases "id_c c = id_c x")
            case True
            with c x inj have "c = x" by (auto dest: inj_onD)
            then show ?thesis using False np by (simp add: m'_def m1_def childrenOf_snoc)
          next
            case ne: False
            from inv c obtain dc where "m (id_c c) = Some \<lparr>obj_comment = c, obj_children = map id_c (childrenOf ps (id_c c)), obj_depth = dc\<rparr>"
              by (auto simp: linkedPrefix_def)
            then show ?thesis using False ne np by (simp add: m'_def m1_def childrenOf_snoc)
          qed
        qed
      next
        fix k assume k: "k \<notin> id_c ` set cs"
        then have "k \<noteq> pid" "k \<noteq> id_c x" using True x by auto
        moreover have "m k = None" using inv k by (simp add: linkedPrefix_def)
        ultimately show "m' k = None" by (simp add: m'_def m1_def)
      qed
      with l nr show ?thesis by simp
    qed
  qed
qed

lemma foldl_link:
  assumes U: "uniqueIds cs"
  shows "set qs \<subseteq> set cs \<Longrightarrow> linkedPrefix cs ps m \<Longrightarrow>
     \<exists>m'. foldl link (m, roots) qs = (m', roots @ map id_c (filter (isRoot cs) qs))
           \<and> linkedPrefix cs (ps @ qs) m'"
proof (induction qs arbitrary: ps m roots)
  case Nil
  then show ?case by simp
next
  case (Cons x qs)
  from link_step[OF U _ Cons.prems(2), of x roots] Cons.prems(1)
  obtain m1 where m1: "link (m, roots) x = (m1, roots @ (if isRoot cs x then [id_c x] else []))"
    "linkedPrefix cs (ps @ [x]) m1" by auto
  from Cons.IH[OF _ m1(2), of "roots @ (if isRoot cs x then [id_c x] else [])"] Cons.prems(1)
  obtain m' where "foldl link (m1, roots @ (if isRoot cs x then [id_c x] else [])) qs
       = (m', (roots @ (if isRoot cs x then [id_c x] else [])) @ map id_c (filter (isRoot cs) qs))"
    "linkedPrefix cs ((ps @ [x]) @ qs) m'" by auto
  with m1(1) show ?case by auto
qed

lemma second_pass:
  assumes U: "uniqueIds cs"
  shows "\<exists>m. foldl link (indexComments cs, []) cs = (m, map id_c (rootsOf cs)) \<and> linked cs m"
proof -
  from foldl_link[OF U subset_refl linkedPrefix_index[OF U], of "[]"]
  obtain m where "foldl link (indexComments cs, []) cs = (m, map id_c (filter (isRoot cs) cs))"
    "linkedPrefix cs cs m" by auto
  then show ?thesis by (auto simp: rootsOf_def linked_def linkedPrefix_def)
qed

subsection \<open>The third pass and the result\<close>

lemma refTime_sortedOn: "refTime tm (sortedOn tm h A) = refTime tm h"
proof
  fix k show "refTime tm (sortedOn tm h A) k = refTime tm h k"
    by (cases "h k") (simp_all add: refTime_def sortedOn_def)
qed

lemma sortRefs_sortedOn: "sortRefs tm (sortedOn tm h A) = sortRefs tm h"
  by (rule ext) (simp add: sortRefs_def refTime_sortedOn)

lemma sortedOn_empty: "sortedOn tm h {} = h"
  by (rule ext) (simp add: sortedOn_def)

lemma refTime_linked: "linked cs h \<Longrightarrow> c \<in> set cs \<Longrightarrow> refTime tm h (id_c c) = tm (createdAt c)"
  by (auto simp: linked_def refTime_def)

lemma sortRefs_linked:
  assumes "linked cs h" and "set xs \<subseteq> set cs"
  shows "sortRefs tm h (map id_c xs) = map id_c (sortBy (compareCreatedAt tm) xs)"
  unfolding sortRefs_def
proof (rule sortBy_map)
  fix x y assume "x \<in> set xs" "y \<in> set xs"
  then have "x \<in> set cs" "y \<in> set cs" using assms(2) by auto
  then show "compareTime (refTime tm h (id_c x)) (refTime tm h (id_c y)) = compareCreatedAt tm x y"
    by (simp add: refTime_linked[OF assms(1)] compareCreatedAt_def)
qed

text \<open>The sorted children of a comment.\<close>

lemma sortedChildren_facts:
  assumes U: "uniqueIds cs" and c: "c \<in> set cs"
  shows "set (sortBy cmp (childrenOf cs (id_c c))) \<subseteq> set cs"
    and "distinct (map id_c (sortBy cmp (childrenOf cs (id_c c))))"
    and "id_c ` set (sortBy cmp (childrenOf cs (id_c c))) = {x. (x, id_c c) \<in> parentRel cs}"
proof -
  show "set (sortBy cmp (childrenOf cs (id_c c))) \<subseteq> set cs"
    using childrenOf_subset by (simp add: set_sortBy)
  have "mset (map id_c (sortBy cmp (childrenOf cs (id_c c)))) = mset (map id_c (childrenOf cs (id_c c)))"
    by (simp add: mset_sortBy)
  then show "distinct (map id_c (sortBy cmp (childrenOf cs (id_c c))))"
    using distinct_childrenOf[OF U, of "id_c c"] by (metis mset_eq_imp_distinct_iff)
  show "id_c ` set (sortBy cmp (childrenOf cs (id_c c))) = {x. (x, id_c c) \<in> parentRel cs}"
    using set_childrenOf[of "id_c c" cs] c by (simp add: set_sortBy)
qed

lemma sortChildren_sortedOn:
  assumes U: "uniqueIds cs" and Acy: "acyclicComments cs" and L: "linked cs h"
  shows "c \<in> set cs \<Longrightarrow> descendants cs (id_c c) \<inter> A = {} \<Longrightarrow> card (descendants cs (id_c c)) \<le> n
     \<Longrightarrow> sortChildren tm n (id_c c) (sortedOn tm h A) = Some (sortedOn tm h (A \<union> descendants cs (id_c c)))"
proof (induction n arbitrary: c A)
  case 0
  have "finite (descendants cs (id_c c))" using 0(1) by (intro finite_descendants) simp
  with 0(3) have "descendants cs (id_c c) = {}" by simp
  with descendants_self show ?case by blast
next
  case (Suc n)
  let ?r = "id_c c"
  let ?X = "sortBy (compareCreatedAt tm) (childrenOf cs ?r)"
  from L Suc.prems(1) obtain d where hr:
    "h ?r = Some \<lparr>obj_comment = c, obj_children = map id_c (childrenOf cs ?r), obj_depth = d\<rparr>"
    by (auto simp: linked_def)
  have rA: "?r \<notin> A" using Suc.prems(2) descendants_self[of ?r cs] by blast
  have sorted: "sortRefs tm h (map id_c (childrenOf cs ?r)) = map id_c ?X"
    using L childrenOf_subset by (rule sortRefs_linked)
  have X: "set ?X \<subseteq> set cs" "distinct (map id_c ?X)"
    "id_c ` set ?X = {x. (x, ?r) \<in> parentRel cs}"
    using sortedChildren_facts[OF U Suc.prems(1)] by blast+
  have upd: "(sortedOn tm h A)(?r \<mapsto> \<lparr>obj_comment = c, obj_children = map id_c ?X, obj_depth = d\<rparr>)
      = sortedOn tm h (A \<union> {?r})"
    by (rule ext) (simp add: sortedOn_def hr sorted)
  have s0: "sortedOn tm h A ?r = h ?r" using rA by (simp add: sortedOn_def)
  have "sortChildren tm (Suc n) ?r (sortedOn tm h A)
      = forEachM (sortChildren tm n) (sortRefs tm (sortedOn tm h A) (map id_c (childrenOf cs ?r)))
          ((sortedOn tm h A)(?r \<mapsto> \<lparr>obj_comment = c,
              obj_children = sortRefs tm (sortedOn tm h A) (map id_c (childrenOf cs ?r)), obj_depth = d\<rparr>))"
    by (simp add: s0 hr Let_def)
  then have unfold: "sortChildren tm (Suc n) ?r (sortedOn tm h A)
      = forEachM (sortChildren tm n) (map id_c ?X) (sortedOn tm h (A \<union> {?r}))"
    by (simp only: sortRefs_sortedOn sorted upd)
  have loop: "forEachM (sortChildren tm n) (map id_c ?X) (sortedOn tm h (A \<union> {?r}))
      = Some (sortedOn tm h ((A \<union> {?r}) \<union> \<Union> (descendants cs ` set (map id_c ?X))))"
  proof (rule forEachM_union)
    fix x B assume x: "x \<in> set (map id_c ?X)" and dis: "descendants cs x \<inter> B = {}"
    from x obtain c' where c': "c' \<in> set ?X" "x = id_c c'" by auto
    have e: "(x, ?r) \<in> parentRel cs" using X(3) c' by blast
    have "card (descendants cs x) \<le> n"
      using card_descendants_child[OF Acy e] Suc.prems(3) by simp
    then show "sortChildren tm n x (sortedOn tm h B) = Some (sortedOn tm h (B \<union> descendants cs x))"
      using Suc.IH[of c' B] c' X(1) dis by auto
  next
    show "distinct (map id_c ?X)" by (rule X(2))
  next
    fix x y assume "x \<in> set (map id_c ?X)" "y \<in> set (map id_c ?X)" "x \<noteq> y"
    then show "descendants cs x \<inter> descendants cs y = {}"
      using X(3) by (intro siblings_disjoint[OF U Acy, of x ?r y]) auto
  next
    fix x assume "x \<in> set (map id_c ?X)"
    then have e: "(x, ?r) \<in> parentRel cs" using X(3) by auto
    show "descendants cs x \<inter> (A \<union> {?r}) = {}"
      using child_descendants_subset[OF e] parent_not_descendant[OF Acy e] Suc.prems(2) by blast
  qed
  have "descendants cs ?r = insert ?r (\<Union> (descendants cs ` set (map id_c ?X)))"
    using descendants_unfold[of cs ?r] X(3) by simp
  then have "(A \<union> {?r}) \<union> \<Union> (descendants cs ` set (map id_c ?X)) = A \<union> descendants cs ?r"
    by blast
  with unfold loop show ?case by simp
qed

lemma concat_all2:
  assumes "list_all2 (\<lambda>x t. set (g t) = D x \<and> distinct (g t)) xs ts"
    and "distinct xs"
    and "\<And>x y. x \<in> set xs \<Longrightarrow> y \<in> set xs \<Longrightarrow> x \<noteq> y \<Longrightarrow> D x \<inter> D y = {}"
  shows "set (concat (map g ts)) = \<Union> (D ` set xs) \<and> distinct (concat (map g ts))"
  using assms
proof (induction rule: list_all2_induct)
  case Nil
  then show ?case by simp
next
  case (Cons x xs t ts)
  have ih: "set (concat (map g ts)) = \<Union> (D ` set xs) \<and> distinct (concat (map g ts))"
    using Cons by simp
  have "D x \<inter> \<Union> (D ` set xs) = {}"
  proof -
    have "D x \<inter> D y = {}" if "y \<in> set xs" for y
      using that Cons.prems(1) Cons.prems(2)[of x y] by auto
    then show ?thesis by blast
  qed
  with ih Cons.hyps(1) show ?case by auto
qed

lemma subnodes_self: "t \<in> set (subnodes t)"
  by (cases t) simp

lemma toTree_sortedOn:
  assumes U: "uniqueIds cs" and Acy: "acyclicComments cs" and L: "linked cs h"
  shows "c \<in> set cs \<Longrightarrow> descendants cs (id_c c) \<subseteq> A \<Longrightarrow> card (descendants cs (id_c c)) \<le> n
     \<Longrightarrow> \<exists>t. toTree n (sortedOn tm h A) (id_c c) = Some t \<and> treeOk tm cs c t"
proof (induction n arbitrary: c)
  case 0
  have "finite (descendants cs (id_c c))" using 0(1) by (intro finite_descendants) simp
  with 0(3) have "descendants cs (id_c c) = {}" by simp
  with descendants_self show ?case by blast
next
  case (Suc n)
  let ?r = "id_c c"
  let ?X = "sortBy (compareCreatedAt tm) (childrenOf cs ?r)"
  let ?g = "\<lambda>t. map (id_c \<circ> comment) (subnodes t)"
  from L Suc.prems(1) obtain d where hr:
    "h ?r = Some \<lparr>obj_comment = c, obj_children = map id_c (childrenOf cs ?r), obj_depth = d\<rparr>"
    by (auto simp: linked_def)
  have rA: "?r \<in> A" using Suc.prems(2) descendants_self[of ?r cs] by blast
  have sorted: "sortRefs tm h (map id_c (childrenOf cs ?r)) = map id_c ?X"
    using L childrenOf_subset by (rule sortRefs_linked)
  have X: "set ?X \<subseteq> set cs" "distinct (map id_c ?X)"
    "id_c ` set ?X = {x. (x, ?r) \<in> parentRel cs}"
    using sortedChildren_facts[OF U Suc.prems(1)] by blast+
  have Hr: "sortedOn tm h A ?r = Some \<lparr>obj_comment = c, obj_children = map id_c ?X, obj_depth = d\<rparr>"
    using rA hr sorted by (simp add: sortedOn_def)
  have "\<exists>ts. those (map (\<lambda>c'. toTree n (sortedOn tm h A) (id_c c')) ?X) = Some ts \<and> list_all2 (treeOk tm cs) ?X ts"
  proof (rule those_map_all2)
    fix c' assume c': "c' \<in> set ?X"
    then have e: "(id_c c', ?r) \<in> parentRel cs" using X(3) by blast
    have "card (descendants cs (id_c c')) \<le> n"
      using card_descendants_child[OF Acy e] Suc.prems(3) by simp
    moreover have "descendants cs (id_c c') \<subseteq> A"
      using child_descendants_subset[OF e] Suc.prems(2) by blast
    ultimately show "\<exists>t. toTree n (sortedOn tm h A) (id_c c') = Some t \<and> treeOk tm cs c' t"
      using Suc.IH[of c'] c' X(1) by blast
  qed
  then obtain ts where ts: "those (map (\<lambda>c'. toTree n (sortedOn tm h A) (id_c c')) ?X) = Some ts"
    "list_all2 (treeOk tm cs) ?X ts" by blast
  have tt: "toTree (Suc n) (sortedOn tm h A) ?r = Some (CommentNode c ts d)"
    using Hr ts(1) by (simp add: comp_def)
  have mc: "map comment ts = ?X"
    using ts(2) by (induction rule: list_all2_induct) (simp_all add: treeOk_def)
  have sub: "\<forall>t \<in> set ts. \<forall>M \<in> set (subnodes t). comment M \<in> set cs
        \<and> map comment (children M) = sortBy (compareCreatedAt tm) (childrenOf cs (id_c (comment M)))"
    using ts(2) by (induction rule: list_all2_induct) (simp_all add: treeOk_def)
  have "list_all2 (\<lambda>x t. set (?g t) = descendants cs (id_c x) \<and> distinct (?g t)) ?X ts"
    using ts(2) by (rule list_all2_mono) (simp add: treeOk_def)
  moreover have "distinct ?X" using X(2) by (simp add: distinct_map)
  moreover have "descendants cs (id_c x) \<inter> descendants cs (id_c y) = {}"
    if "x \<in> set ?X" "y \<in> set ?X" "x \<noteq> y" for x y
  proof -
    have "id_c x \<noteq> id_c y" using that X(1) uniqueIds_inj[OF U] by (auto dest: inj_onD)
    moreover have "(id_c x, ?r) \<in> parentRel cs" "(id_c y, ?r) \<in> parentRel cs" using that X(3) by blast+
    ultimately show ?thesis using siblings_disjoint[OF U Acy] by blast
  qed
  ultimately have cc: "set (concat (map ?g ts)) = \<Union> ((\<lambda>x. descendants cs (id_c x)) ` set ?X)
      \<and> distinct (concat (map ?g ts))"
    by (rule concat_all2)
  have ids: "map (id_c \<circ> comment) (subnodes (CommentNode c ts d)) = ?r # concat (map ?g ts)"
    by (simp add: map_concat comp_def)
  have un: "descendants cs ?r = insert ?r (\<Union> ((\<lambda>x. descendants cs (id_c x)) ` set ?X))"
    using descendants_unfold[of cs ?r] X(3)[symmetric] by (simp add: image_image)
  have notin: "?r \<notin> \<Union> ((\<lambda>x. descendants cs (id_c x)) ` set ?X)"
  proof
    assume "?r \<in> \<Union> ((\<lambda>x. descendants cs (id_c x)) ` set ?X)"
    then obtain x where x: "x \<in> set ?X" "?r \<in> descendants cs (id_c x)" by blast
    then have "(id_c x, ?r) \<in> parentRel cs" using X(3) by blast
    from parent_not_descendant[OF Acy this] x(2) show False by simp
  qed
  have "treeOk tm cs c (CommentNode c ts d)"
    unfolding treeOk_def ids
    using cc un notin mc sub Suc.prems(1) by (auto simp del: subnodes.simps simp: subnodes.simps[of c ts d])
  with tt show ?case by blast
qed

lemma sortedRoots_facts:
  assumes U: "uniqueIds cs"
  shows "set (sortBy cmp (rootsOf cs)) = set (rootsOf cs)"
    and "distinct (map id_c (sortBy cmp (rootsOf cs)))"
    and "distinct (sortBy cmp (rootsOf cs))"
proof -
  show "set (sortBy cmp (rootsOf cs)) = set (rootsOf cs)" by (rule set_sortBy)
  have "mset (map id_c (sortBy cmp (rootsOf cs))) = mset (map id_c (rootsOf cs))"
    by (simp add: mset_sortBy)
  then show d: "distinct (map id_c (sortBy cmp (rootsOf cs)))"
    using distinct_rootsOf[OF U] by (metis mset_eq_imp_distinct_iff)
  then show "distinct (sortBy cmp (rootsOf cs))" by (simp add: distinct_map)
qed

lemma buildTree_forest:
  assumes U: "uniqueIds cs" and Acy: "acyclicComments cs"
  shows "\<exists>forest. buildTree tm cs = Some forest
           \<and> list_all2 (treeOk tm cs) (sortBy (compareCreatedAt tm) (rootsOf cs)) forest"
proof -
  let ?n = "Suc (length cs)"
  let ?roots = "map id_c (rootsOf cs)"
  let ?R = "sortBy (compareCreatedAt tm) (rootsOf cs)"
  let ?A = "\<Union> (descendants cs ` set ?roots)"
  from second_pass[OF U] obtain m where m: "foldl link (indexComments cs, []) cs = (m, ?roots)"
    and L: "linked cs m" by blast
  have card: "card (descendants cs (id_c c)) \<le> ?n" if "c \<in> set cs" for c
    using card_descendants_le[of "id_c c" cs] that by simp
  have "forEachM (sortChildren tm ?n) ?roots (sortedOn tm m {}) = Some (sortedOn tm m ({} \<union> ?A))"
  proof (rule forEachM_union)
    fix x B assume x: "x \<in> set ?roots" and dis: "descendants cs x \<inter> B = {}"
    then obtain c where c: "c \<in> set cs" "x = id_c c" using rootsOf_subset by auto
    show "sortChildren tm ?n x (sortedOn tm m B) = Some (sortedOn tm m (B \<union> descendants cs x))"
      unfolding c(2) using c(1) dis card[OF c(1)]
      by (intro sortChildren_sortedOn[OF U Acy L]) (simp_all add: c(2))
  next
    show "distinct ?roots" using U by (rule distinct_rootsOf)
  next
    fix x y assume "x \<in> set ?roots" "y \<in> set ?roots" "x \<noteq> y"
    then show "descendants cs x \<inter> descendants cs y = {}"
      using roots_disjoint[OF U] by auto
  next
    fix x show "descendants cs x \<inter> {} = {}" by simp
  qed
  then have pass3: "forEachM (sortChildren tm ?n) ?roots m = Some (sortedOn tm m ?A)"
    by (simp add: sortedOn_empty)
  have sr: "sortRefs tm (sortedOn tm m ?A) ?roots = map id_c ?R"
    using sortRefs_linked[OF L rootsOf_subset] by (simp add: sortRefs_sortedOn)
  have "\<exists>ts. those (map (\<lambda>c. toTree ?n (sortedOn tm m ?A) (id_c c)) ?R) = Some ts
           \<and> list_all2 (treeOk tm cs) ?R ts"
  proof (rule those_map_all2)
    fix c assume "c \<in> set ?R"
    then have c: "c \<in> set (rootsOf cs)" by (simp add: set_sortBy)
    then have "c \<in> set cs" using rootsOf_subset by auto
    moreover have "descendants cs (id_c c) \<subseteq> ?A" using c by auto
    ultimately show "\<exists>t. toTree ?n (sortedOn tm m ?A) (id_c c) = Some t \<and> treeOk tm cs c t"
      using card by (intro toTree_sortedOn[OF U Acy L]) simp_all
  qed
  then obtain ts where ts: "those (map (\<lambda>c. toTree ?n (sortedOn tm m ?A) (id_c c)) ?R) = Some ts"
    "list_all2 (treeOk tm cs) ?R ts" by blast
  have "buildTree tm cs = Some ts"
    using m pass3 sr ts(1) by (simp add: buildTree_def comp_def)
  with ts(2) show ?thesis by blast
qed

lemma list_all2_right:
  "list_all2 P xs ys \<Longrightarrow> y \<in> set ys \<Longrightarrow> \<exists>x \<in> set xs. P x y"
  by (induction rule: list_all2_induct) auto

lemma forest_nodes:
  assumes U: "uniqueIds cs" and Acy: "acyclicComments cs"
    and F: "list_all2 (treeOk tm cs) (sortBy (compareCreatedAt tm) (rootsOf cs)) forest"
  shows "map comment forest = sortBy (compareCreatedAt tm) (rootsOf cs)"
    and "distinct (map (id_c \<circ> comment) (allNodes forest))"
    and "set (map (id_c \<circ> comment) (allNodes forest)) = id_c ` set cs"
    and "\<forall>M \<in> set (allNodes forest). comment M \<in> set cs
          \<and> map comment (children M) = sortBy (compareCreatedAt tm) (childrenOf cs (id_c (comment M)))"
proof -
  let ?R = "sortBy (compareCreatedAt tm) (rootsOf cs)"
  let ?g = "\<lambda>t. map (id_c \<circ> comment) (subnodes t)"
  let ?D = "\<lambda>x. descendants cs (id_c x)"
  show "map comment forest = ?R"
    using F by (induction rule: list_all2_induct) (simp_all add: treeOk_def)
  show "\<forall>M \<in> set (allNodes forest). comment M \<in> set cs
          \<and> map comment (children M) = sortBy (compareCreatedAt tm) (childrenOf cs (id_c (comment M)))"
  proof
    fix M assume "M \<in> set (allNodes forest)"
    then obtain t where t: "t \<in> set forest" "M \<in> set (subnodes t)"
      by (auto simp: allNodes_def)
    from list_all2_right[OF F t(1)] obtain x where "treeOk tm cs x t" by blast
    with t(2) show "comment M \<in> set cs
          \<and> map comment (children M) = sortBy (compareCreatedAt tm) (childrenOf cs (id_c (comment M)))"
      by (simp add: treeOk_def)
  qed
  have R: "set ?R = set (rootsOf cs)" "distinct ?R"
    using sortedRoots_facts[OF U] by blast+
  have a: "list_all2 (\<lambda>x t. set (?g t) = ?D x \<and> distinct (?g t)) ?R forest"
    using F by (rule list_all2_mono) (simp add: treeOk_def)
  have b: "?D x \<inter> ?D y = {}" if "x \<in> set ?R" "y \<in> set ?R" "x \<noteq> y" for x y
  proof -
    have xy: "x \<in> set (rootsOf cs)" "y \<in> set (rootsOf cs)" using that R(1) by auto
    then have "x \<in> set cs" "y \<in> set cs" using rootsOf_subset[of cs] by auto
    then have "id_c x \<noteq> id_c y"
      using that(3) uniqueIds_inj[OF U] by (auto dest: inj_onD)
    with xy show ?thesis by (rule roots_disjoint[OF U])
  qed
  from a R(2) b have cc: "set (concat (map ?g forest)) = \<Union> (?D ` set ?R)
      \<and> distinct (concat (map ?g forest))"
    by (rule concat_all2)
  have ids: "map (id_c \<circ> comment) (allNodes forest) = concat (map ?g forest)"
    by (simp add: allNodes_def map_concat comp_def)
  show "distinct (map (id_c \<circ> comment) (allNodes forest))"
    unfolding ids using cc by blast
  have "\<Union> (?D ` set (rootsOf cs)) = id_c ` set cs"
  proof
    show "\<Union> (?D ` set (rootsOf cs)) \<subseteq> id_c ` set cs"
    proof
      fix x assume "x \<in> \<Union> (?D ` set (rootsOf cs))"
      then obtain r where r: "r \<in> set (rootsOf cs)" "x \<in> descendants cs (id_c r)" by blast
      then have "id_c r \<in> id_c ` set cs" using rootsOf_subset[of cs] by blast
      from descendants_ids[OF this] r(2) show "x \<in> id_c ` set cs" by blast
    qed
    show "id_c ` set cs \<subseteq> \<Union> (?D ` set (rootsOf cs))"
    proof
      fix x assume "x \<in> id_c ` set cs"
      from roots_cover[OF Acy this] show "x \<in> \<Union> (?D ` set (rootsOf cs))" by blast
    qed
  qed
  then show "set (map (id_c \<circ> comment) (allNodes forest)) = id_c ` set cs"
    unfolding ids using cc R(1) by simp
qed

lemma forest_comments:
  assumes U: "uniqueIds cs" and Acy: "acyclicComments cs"
    and F: "list_all2 (treeOk tm cs) (sortBy (compareCreatedAt tm) (rootsOf cs)) forest"
  shows "set (map comment (allNodes forest)) = set cs"
    and "distinct (map comment (allNodes forest))"
    and "length (allNodes forest) = length cs"
proof -
  let ?K = "map comment (allNodes forest)"
  note fn = forest_nodes[OF U Acy F]
  have idsK: "map id_c ?K = map (id_c \<circ> comment) (allNodes forest)" by simp
  have sub: "set ?K \<subseteq> set cs" using fn(4) by auto
  show dK: "distinct ?K" using fn(2) idsK by (metis distinct_map)
  show sK: "set ?K = set cs"
  proof
    show "set ?K \<subseteq> set cs" by (rule sub)
    show "set cs \<subseteq> set ?K"
    proof
      fix c assume c: "c \<in> set cs"
      have "set (map id_c ?K) = id_c ` set cs" unfolding idsK by (rule fn(3))
      then have "id_c ` set ?K = id_c ` set cs" by (simp only: set_map)
      with c obtain k where k: "k \<in> set ?K" "id_c k = id_c c" by (metis imageE image_eqI)
      with sub c uniqueIds_inj[OF U] have "k = c" by (auto dest: inj_onD)
      with k show "c \<in> set ?K" by simp
    qed
  qed
  have "distinct cs" using U by (auto simp: uniqueIds_def distinct_map)
  then have "length cs = card (set cs)" by (simp add: distinct_card)
  also have "\<dots> = card (set ?K)" using sK by simp
  also have "\<dots> = length ?K" using dK by (rule distinct_card)
  finally show "length (allNodes forest) = length cs" by simp
qed

subsection \<open>The traversals\<close>

lemma foldl_acc:
  assumes "\<And>t acc. t \<in> set ts \<Longrightarrow> f acc t = acc @ g t"
  shows "foldl f acc ts = acc @ concat (map g ts)"
  using assms by (induction ts arbitrary: acc) auto

lemma flattenTraverse_subnodes: "flattenTraverse acc t = acc @ map comment (subnodes t)"
proof (induction t arbitrary: acc)
  case (CommentNode c ch d)
  have "foldl flattenTraverse (acc @ [c]) ch = (acc @ [c]) @ concat (map (\<lambda>t. map comment (subnodes t)) ch)"
    by (rule foldl_acc) (simp add: CommentNode)
  then show ?case by (simp add: map_concat comp_def)
qed

lemma flattenTree_allNodes: "flattenTree nodes = map comment (allNodes nodes)"
proof -
  have "foldl flattenTraverse [] nodes = [] @ concat (map (\<lambda>t. map comment (subnodes t)) nodes)"
    by (rule foldl_acc) (simp add: flattenTraverse_subnodes)
  then show ?thesis by (simp add: flattenTree_def allNodes_def map_concat comp_def)
qed

lemma foldl_count:
  fixes n :: nat
  assumes "\<And>t n. t \<in> set ts \<Longrightarrow> f n t = n + g t"
  shows "foldl f n ts = n + sum_list (map g ts)"
  using assms by (induction ts arbitrary: n) auto

lemma countTraverse_subnodes: "countTraverse n t = n + length (subnodes t)"
proof (induction t arbitrary: n)
  case (CommentNode c ch d)
  have "foldl countTraverse (n + 1) ch = (n + 1) + sum_list (map (\<lambda>t. length (subnodes t)) ch)"
    by (rule foldl_count) (simp add: CommentNode)
  then show ?case by (simp add: length_concat comp_def)
qed

lemma countNodes_allNodes: "countNodes nodes = length (allNodes nodes)"
proof -
  have "foldl countTraverse 0 nodes = 0 + sum_list (map (\<lambda>t. length (subnodes t)) nodes)"
    by (rule foldl_count) (simp add: countTraverse_subnodes)
  then show ?thesis by (simp add: countNodes_def allNodes_def length_concat comp_def)
qed

subsection \<open>Acyclic collections and parseable time stamps\<close>

lemma acyclic_by_rank:
  fixes f :: "string \<Rightarrow> nat"
  assumes "\<forall>c \<in> set cs. \<forall>p. parentId c = Some p \<longrightarrow> p \<in> id_c ` set cs \<longrightarrow> f p < f (id_c c)"
  shows "acyclicComments cs"
proof -
  have "parentRel cs \<subseteq> (measure f)\<inverse>"
    using assms by (auto simp: parentRel_def)
  moreover have "acyclic ((measure f)\<inverse>)"
    by (simp add: wf_acyclic)
  ultimately show ?thesis
    unfolding acyclicComments_def by (rule acyclic_subset[rotated])
qed

lemma sortBy_parseable:
  assumes "\<forall>c \<in> set xs. tm (createdAt c) \<noteq> None"
  shows "sortBy (compareCreatedAt tm) xs = sort_key (timeOf tm) xs"
proof -
  have "sortBy (compareCreatedAt tm) xs = sortBy (\<lambda>a b. timeOf tm a - timeOf tm b) xs"
  proof (rule sortBy_cong)
    fix x y assume "x \<in> set xs" "y \<in> set xs"
    with assms have "tm (createdAt x) \<noteq> None" "tm (createdAt y) \<noteq> None" by blast+
    then obtain a b where "tm (createdAt x) = Some a" "tm (createdAt y) = Some b" by blast
    then show "compareCreatedAt tm x y = timeOf tm x - timeOf tm y"
      by (simp add: compareCreatedAt_def compareTime_def timeOf_def)
  qed
  then show ?thesis by (simp add: sortBy_sort_key)
qed

lemma tie_unique: "uniqueIds tieExample"
  by (simp add: uniqueIds_def tieExample_def)

lemma tie_acyclic: "acyclicComments tieExample"
  by (rule acyclic_by_rank[where f = tieRank]) (simp add: tieExample_def tieRank_def)

lemma tie_parseable: "parseable isoTime tieExample"
  unfolding parseable_def tieExample_def by code_simp


subsection \<open>The closure of a delete\<close>

lemma find_id:
  assumes "uniqueIds cs" and "c \<in> set cs"
  shows "find (\<lambda>x. id_c x = id_c c) cs = Some c"
proof -
  from assms(2) have "find (\<lambda>x. id_c x = id_c c) cs \<noteq> None"
    by (auto simp: find_None_iff)
  then obtain c' where c': "find (\<lambda>x. id_c x = id_c c) cs = Some c'" by blast
  then have "c' \<in> set cs" "id_c c' = id_c c"
    by (auto simp: find_Some_iff in_set_conv_nth)
  with assms uniqueIds_inj[OF assms(1)] have "c' = c" by (auto dest: inj_onD)
  with c' show ?thesis by simp
qed

lemma descendant_step:
  assumes U: "uniqueIds cs" and c: "c \<in> set cs" and ne: "id_c c \<noteq> X"
  shows "id_c c \<in> descendants cs X
     \<longleftrightarrow> (\<exists>p. parentId c = Some p \<and> p \<in> id_c ` set cs \<and> p \<in> descendants cs X)"
proof
  assume "id_c c \<in> descendants cs X"
  then have "(id_c c, X) \<in> (parentRel cs)\<^sup>*" by (simp add: descendants_def)
  with ne obtain z where z: "(id_c c, z) \<in> parentRel cs" "(z, X) \<in> (parentRel cs)\<^sup>*"
    by (auto elim: converse_rtranclE)
  from z(1) obtain c' where c': "c' \<in> set cs" "id_c c' = id_c c" "parentId c' = Some z" "z \<in> id_c ` set cs"
    by (auto simp: parentRel_iff)
  with c uniqueIds_inj[OF U] have "c' = c" by (auto dest: inj_onD)
  with c' z(2) show "\<exists>p. parentId c = Some p \<and> p \<in> id_c ` set cs \<and> p \<in> descendants cs X"
    by (auto simp: descendants_def)
next
  assume "\<exists>p. parentId c = Some p \<and> p \<in> id_c ` set cs \<and> p \<in> descendants cs X"
  then obtain p where p: "parentId c = Some p" "p \<in> id_c ` set cs" "(p, X) \<in> (parentRel cs)\<^sup>*"
    by (auto simp: descendants_def)
  then have "(id_c c, p) \<in> parentRel cs" using c by (auto simp: parentRel_iff)
  with p(3) show "id_c c \<in> descendants cs X"
    by (auto simp: descendants_def intro: converse_rtrancl_into_rtrancl)
qed

lemma reachesTarget_descendants:
  assumes U: "uniqueIds cs" and Acy: "acyclicComments cs"
  shows "c \<in> set cs \<Longrightarrow> reachesTarget cs X (Some c) = Some (id_c c \<in> descendants cs X)"
proof -
  have wf: "wf ((parentRel cs)\<inverse>)"
    using finite_parentRel Acy by (auto simp: acyclicComments_def intro: finite_acyclic_wf_converse)
  have "\<forall>c \<in> set cs. id_c c = x \<longrightarrow> reachesTarget cs X (Some c) = Some (id_c c \<in> descendants cs X)" for x
    using wf
  proof (induction x rule: wf_induct_rule)
    case (less x)
    show ?case
    proof (intro ballI impI)
      fix c assume c: "c \<in> set cs" and x: "id_c c = x"
      show "reachesTarget cs X (Some c) = Some (id_c c \<in> descendants cs X)"
      proof (cases "id_c c = X")
        case True
        then show ?thesis by (subst reachesTarget.simps) (simp add: descendants_self)
      next
        case False
        note step = descendant_step[OF U c False]
        show ?thesis
        proof (cases "parentId c")
          case None
          with False step show ?thesis
            by (subst reachesTarget.simps) (simp add: reachesTarget.simps[of cs X None])
        next
          case (Some p)
          show ?thesis
          proof (cases "p \<in> id_c ` set cs")
            case True
            then obtain pc where pc: "pc \<in> set cs" "id_c pc = p" by auto
            then have f: "find (\<lambda>x. id_c x = p) cs = Some pc" using find_id[OF U pc(1)] by simp
            have "(x, p) \<in> parentRel cs" using c x Some True by (auto simp: parentRel_iff)
            then have "reachesTarget cs X (Some pc) = Some (p \<in> descendants cs X)"
              using less.IH[of p] pc by auto
            with False Some f step True show ?thesis
              by (subst reachesTarget.simps) simp
          next
            case no: False
            then have f: "find (\<lambda>x. id_c x = p) cs = None" by (auto simp: find_None_iff)
            with False Some step no show ?thesis
              by (subst reachesTarget.simps) (simp add: reachesTarget.simps[of cs X None])
          qed
        qed
      qed
    qed
  qed
  then show "c \<in> set cs \<Longrightarrow> reachesTarget cs X (Some c) = Some (id_c c \<in> descendants cs X)"
    by blast
qed

lemma filterM_total:
  assumes "\<And>x. x \<in> set xs \<Longrightarrow> p x = Some (P x)"
  shows "filterM p xs = Some (filter P xs)"
  using assms by (induction xs) auto

lemma deletedComments_descendants:
  assumes "uniqueIds cs" and "acyclicComments cs"
  shows "deletedComments cs X = Some (filter (\<lambda>c. id_c c \<in> descendants cs X) cs)"
  unfolding deletedComments_def
  by (rule filterM_total) (rule reachesTarget_descendants[OF assms])

lemma filter_not_member: "filter (\<lambda>c. c \<notin> set (filter P cs)) cs = filter (\<lambda>c. \<not> P c) cs"
  by (rule filter_cong) auto

subsection \<open>Collections with the same elements\<close>

lemma parentRel_set: "set cs' = set cs \<Longrightarrow> parentRel cs' = parentRel cs"
  by (simp add: parentRel_def)

lemma acyclic_mset: "mset cs' = mset cs \<Longrightarrow> acyclicComments cs' = acyclicComments cs"
  using parentRel_set[of cs' cs] mset_eq_setD[of cs' cs] by (simp add: acyclicComments_def)

lemma uniqueIds_mset: "mset cs' = mset cs \<Longrightarrow> uniqueIds cs' = uniqueIds cs"
proof -
  assume "mset cs' = mset cs"
  then have "mset (map id_c cs') = mset (map id_c cs)" by simp
  then show ?thesis unfolding uniqueIds_def by (rule mset_eq_imp_distinct_iff)
qed

lemma childrenOf_mset: "mset cs' = mset cs \<Longrightarrow> mset (childrenOf cs' k) = mset (childrenOf cs k)"
  by (simp add: childrenOf_def)

lemma rootsOf_mset:
  assumes "mset cs' = mset cs"
  shows "mset (rootsOf cs') = mset (rootsOf cs)"
proof -
  have "set cs' = set cs" using assms by (rule mset_eq_setD)
  then have "isRoot cs' = isRoot cs" by (simp add: isRoot_def fun_eq_iff split: option.splits)
  with assms show ?thesis by (simp add: rootsOf_def)
qed

lemma sortBy_mset_inj:
  assumes m: "mset xs' = mset xs" and p: "\<forall>c \<in> set xs. tm (createdAt c) \<noteq> None"
    and i: "inj_on (timeOf tm) (set xs)"
  shows "sortBy (compareCreatedAt tm) xs' = sortBy (compareCreatedAt tm) xs"
proof -
  have s: "set xs' = set xs" using m by (rule mset_eq_setD)
  have "sortBy (compareCreatedAt tm) xs' = sort_key (timeOf tm) xs'"
    using p s by (intro sortBy_parseable) simp
  also have "\<dots> = sort_key (timeOf tm) xs"
    using m i s by (intro sort_key_eq_sort_key) simp_all
  also have "\<dots> = sortBy (compareCreatedAt tm) xs"
    using p by (rule sortBy_parseable[symmetric])
  finally show ?thesis .
qed


lemma delete_closure:
  assumes U: "uniqueIds (comments st)" and Acy: "acyclicComments (comments st)"
  shows "handleDelete_begin True X st =
     Some (st\<lparr>comments := filter (\<lambda>c. id_c c \<notin> descendants (comments st) X) (comments st),
              requests := requests st @ [DeleteRequest X]\<rparr>,
           filter (\<lambda>c. id_c c \<in> descendants (comments st) X) (comments st))"
proof -
  have "handleDelete_begin True X st =
     Some (st\<lparr>comments := filter (\<lambda>c. c \<notin> set (filter (\<lambda>c. id_c c \<in> descendants (comments st) X) (comments st))) (comments st),
              requests := requests st @ [DeleteRequest X]\<rparr>,
           filter (\<lambda>c. id_c c \<in> descendants (comments st) X) (comments st))"
    by (simp add: handleDelete_begin_def deletedComments_descendants[OF U Acy] del: set_filter)
  then show ?thesis by (simp only: filter_not_member)
qed

lemma rollback_mset:
  "mset (filter (\<lambda>c. \<not> P c) cs @ filter P cs) = mset cs"
  by (induction cs) auto

lemma same_positions:
  assumes U: "uniqueIds cs" and Acy: "acyclicComments cs" and m: "mset cs' = mset cs"
    and p: "parseable tm cs" and i: "inj_on (timeOf tm) (set cs)"
    and F: "list_all2 (treeOk tm cs) (sortBy (compareCreatedAt tm) (rootsOf cs)) forest"
    and F': "list_all2 (treeOk tm cs') (sortBy (compareCreatedAt tm) (rootsOf cs')) forest'"
  shows "map comment forest' = map comment forest"
    and "\<forall>M \<in> set (allNodes forest). \<forall>M' \<in> set (allNodes forest').
           comment M' = comment M \<longrightarrow> map comment (children M') = map comment (children M)"
proof -
  have U': "uniqueIds cs'" and Acy': "acyclicComments cs'"
    using U Acy uniqueIds_mset[OF m] acyclic_mset[OF m] by simp_all
  note fn = forest_nodes[OF U Acy F] and fn' = forest_nodes[OF U' Acy' F']
  have sub: "\<forall>c \<in> set xs. tm (createdAt c) \<noteq> None" "inj_on (timeOf tm) (set xs)"
    if "set xs \<subseteq> set cs" for xs
    using that p i by (auto simp: parseable_def intro: inj_on_subset)
  have "sortBy (compareCreatedAt tm) (rootsOf cs') = sortBy (compareCreatedAt tm) (rootsOf cs)"
    using rootsOf_mset[OF m] sub[OF rootsOf_subset] by (rule sortBy_mset_inj)
  then show "map comment forest' = map comment forest"
    using fn(1) fn'(1) by simp
  have ch: "sortBy (compareCreatedAt tm) (childrenOf cs' k) = sortBy (compareCreatedAt tm) (childrenOf cs k)" for k
    using childrenOf_mset[OF m] sub[OF childrenOf_subset] by (rule sortBy_mset_inj)
  show "\<forall>M \<in> set (allNodes forest). \<forall>M' \<in> set (allNodes forest').
           comment M' = comment M \<longrightarrow> map comment (children M') = map comment (children M)"
    using fn(4) fn'(4) ch by simp
qed


lemma seed_unique: "uniqueIds getInitialData"
  by (simp add: uniqueIds_def getInitialData_def)

lemma seed_acyclic: "acyclicComments getInitialData"
  by (rule acyclic_by_rank[where f = seedRank]) (simp add: getInitialData_def seedRank_def)

lemma seed_parseable: "parseable isoTime getInitialData"
  unfolding parseable_def getInitialData_def by code_simp

lemma seed_times: "inj_on (timeOf isoTime) (set getInitialData)"
proof -
  have "distinct (map (timeOf isoTime) getInitialData)" by code_simp
  then show ?thesis by (simp add: distinct_map)
qed


section \<open>The seeded dataset\<close>

text \<open>
  C1 (as stated): the seeded dataset has the two roots 1 and 6, and deleting 1 removes
  exactly 1 to 5.  This is not what the code does: comment 6 of \<open>getInitialData\<close>
  has \<open>parentId = '1'\<close>, so the forest has the single root 1, and the closure of 1
  is the whole collection.
\<close>

theorem seeded_two_roots_counterexample:
  "map_option (map (id_c \<circ> comment)) (buildTree isoTime getInitialData) \<noteq> Some [''1'', ''6'']
   \<and> map_option (map id_c) (deletedComments getInitialData ''1'') \<noteq> Some [''1'', ''2'', ''3'', ''4'', ''5'']
   \<and> parentId (getInitialData ! 5) = Some ''1''"
proof -
  have "map_option (map (id_c \<circ> comment)) (buildTree isoTime getInitialData) = Some [''1'']"
    by code_simp
  then have a: "map_option (map (id_c \<circ> comment)) (buildTree isoTime getInitialData) \<noteq> Some [''1'', ''6'']"
    by (simp only: option.inject list.inject) simp
  have "map_option (map id_c) (deletedComments getInitialData ''1'')
          = Some [''1'', ''2'', ''3'', ''4'', ''5'', ''6'', ''7'']"
    by (simp add: deletedComments_def reachesTarget.simps getInitialData_def)
  then have b: "map_option (map id_c) (deletedComments getInitialData ''1'') \<noteq> Some [''1'', ''2'', ''3'', ''4'', ''5'']"
    by (simp only: option.inject list.inject) simp
  have c: "parentId (getInitialData ! 5) = Some ''1''"
    by (simp add: getInitialData_def)
  from a b c show ?thesis by blast
qed

text \<open>
  C1 (amended): the store seeds 7 comments on first use; they have the single root 1
  (Alice), with 6 (Eve) a child of 1.  \<open>buildTree\<close> over them returns exactly one
  root, 1; the nodes in pre-order are 1, 2, 3, 4, 5, 6, 7 at depths 0, 1, 2, 3, 4, 1,
  2, so \<open>getMaxDepth\<close> is 4 (reached at node 5) and \<open>countNodes\<close> is 7.  Deleting
  node 1 removes all seven comments and leaves the empty collection, whose forest is
  empty, with maximal depth 0 and count 0.
\<close>

theorem seeded_dataset:
  "getComments \<lparr>window = True, item = None\<rparr>
     = (getInitialData, \<lparr>window = True, item = Some getInitialData\<rparr>)
   \<and> map (\<lambda>c. (id_c c, parentId c, author c)) getInitialData
     = [(''1'', None, ''Alice''), (''2'', Some ''1'', ''Bob''), (''3'', Some ''2'', ''Charlie''),
        (''4'', Some ''3'', ''Bob''), (''5'', Some ''4'', ''David''), (''6'', Some ''1'', ''Eve''),
        (''7'', Some ''6'', ''Frank'')]
   \<and> map_option (map (id_c \<circ> comment)) (buildTree isoTime getInitialData) = Some [''1'']
   \<and> map_option (map (\<lambda>n. (id_c (comment n), depth n)) \<circ> allNodes) (buildTree isoTime getInitialData)
     = Some [(''1'', 0), (''2'', 1), (''3'', 2), (''4'', 3), (''5'', 4), (''6'', 1), (''7'', 2)]
   \<and> map_option getMaxDepth (buildTree isoTime getInitialData) = Some 4
   \<and> map_option countNodes (buildTree isoTime getInitialData) = Some 7
   \<and> handleDelete_begin True ''1'' \<lparr>comments = getInitialData, requests = [], alerts = []\<rparr>
     = Some (\<lparr>comments = [], requests = [DeleteRequest ''1''], alerts = []\<rparr>, getInitialData)
   \<and> buildTree isoTime [] = Some []
   \<and> getMaxDepth [] = 0 \<and> countNodes [] = 0"
proof -
  have a: "getComments \<lparr>window = True, item = None\<rparr>
     = (getInitialData, \<lparr>window = True, item = Some getInitialData\<rparr>)"
    by (simp add: getComments_def)
  have b: "map (\<lambda>c. (id_c c, parentId c, author c)) getInitialData
     = [(''1'', None, ''Alice''), (''2'', Some ''1'', ''Bob''), (''3'', Some ''2'', ''Charlie''),
        (''4'', Some ''3'', ''Bob''), (''5'', Some ''4'', ''David''), (''6'', Some ''1'', ''Eve''),
        (''7'', Some ''6'', ''Frank'')]"
    by (simp add: getInitialData_def)
  have c: "map_option (map (id_c \<circ> comment)) (buildTree isoTime getInitialData) = Some [''1'']"
    by code_simp
  have d: "map_option (map (\<lambda>n. (id_c (comment n), depth n)) \<circ> allNodes) (buildTree isoTime getInitialData)
     = Some [(''1'', 0), (''2'', 1), (''3'', 2), (''4'', 3), (''5'', 4), (''6'', 1), (''7'', 2)]"
    by code_simp
  have e: "map_option getMaxDepth (buildTree isoTime getInitialData) = Some 4"
    by code_simp
  have f: "map_option countNodes (buildTree isoTime getInitialData) = Some 7"
    by code_simp
  have "deletedComments getInitialData ''1'' = Some getInitialData"
    by (simp add: deletedComments_def reachesTarget.simps getInitialData_def)
  then have g: "handleDelete_begin True ''1'' \<lparr>comments = getInitialData, requests = [], alerts = []\<rparr>
     = Some (\<lparr>comments = [], requests = [DeleteRequest ''1''], alerts = []\<rparr>, getInitialData)"
    by (simp add: handleDelete_begin_def)
  have h: "buildTree isoTime [] = Some []"
    by (simp add: buildTree_def indexComments_def sortRefs_def sortBy_def)
  have i: "getMaxDepth [] = 0 \<and> countNodes [] = 0"
    by (simp add: getMaxDepth_def countNodes_def)
  from a b c d e f g h i show ?thesis by blast
qed

section \<open>Depth\<close>

text \<open>
  C2: every node's depth is its number of ancestor hops.  The second pass of
  \<open>buildTree\<close> reads \<open>parent.depth\<close> when it meets the child; a parent that
  stands behind its child in the array still has depth 0 then.  On the chain 3, 2, 1
  (child first) node 3 is two hops from the root 1 and gets depth 1.
\<close>

theorem depth_child_first:
  "map_option depths (buildTree isoTime childFirst) = Some [(''1'', 0), (''2'', 1), (''3'', 1)]"
  by code_simp

text \<open>
  C6: building the tree of the flattened forest gives the same depths.  On the same
  chain the forest flattens to 1, 2, 3; rebuilt from that, node 3 has depth 2, while
  it has depth 1 in the first forest.
\<close>

theorem rebuild_child_first:
  "map_option depths (buildTree isoTime childFirst) = Some [(''1'', 0), (''2'', 1), (''3'', 1)]
   \<and> map_option (map id_c \<circ> flattenTree) (buildTree isoTime childFirst) = Some [''1'', ''2'', ''3'']
   \<and> map_option depths (Option.bind (buildTree isoTime childFirst) (\<lambda>forest. buildTree isoTime (flattenTree forest)))
       = Some [(''1'', 0), (''2'', 1), (''3'', 2)]"
proof -
  have a: "map_option depths (buildTree isoTime childFirst) = Some [(''1'', 0), (''2'', 1), (''3'', 1)]"
    by code_simp
  have b: "map_option (map id_c \<circ> flattenTree) (buildTree isoTime childFirst) = Some [''1'', ''2'', ''3'']"
    by code_simp
  have c: "map_option depths (Option.bind (buildTree isoTime childFirst) (\<lambda>forest. buildTree isoTime (flattenTree forest)))
       = Some [(''1'', 0), (''2'', 1), (''3'', 2)]"
    by code_simp
  from a b c show ?thesis by blast
qed

section \<open>The reply flow\<close>

text \<open>
  C4: \<open>handleReply\<close> appends exactly one comment, with the temporary id and
  \<open>optimistic = true\<close>.  When the store's add succeeds, the temporary comment is
  replaced where it stands by the store's comment, which carries the store-assigned
  id and no \<open>optimistic\<close> flag; when it fails, the temporary comment is removed and
  every other element stays.  The temporary id is a fresh one: no other element of
  the collection has it.  \<open>xs\<close> and \<open>ys\<close> are the elements in front of and behind
  the temporary comment when the store call settles; the last two parts are the whole
  of \<open>handleReply\<close> when nothing else happens in between.
\<close>

theorem reply_flow:
  assumes "tempId \<notin> id_c ` set (comments st)"
    and "tempId \<notin> id_c ` set xs" and "tempId \<notin> id_c ` set ys"
    and "comments st' = xs @ optimisticComment pid txt name tempId now # ys"
  shows "comments (handleReply_begin pid txt name tempId now st)
           = comments st @ [optimisticComment pid txt name tempId now]
       \<and> id_c (optimisticComment pid txt name tempId now) = tempId
       \<and> optimistic (optimisticComment pid txt name tempId now) = Some True
       \<and> requests (handleReply_begin pid txt name tempId now st)
           = requests st @ [AddRequest (replyFields pid txt name)]
       \<and> (\<forall>server store'.
             addComment store (replyFields pid txt name) newId storeNow = Inr (server, store')
             \<longrightarrow> comments (handleReply_end tempId (Inr server) st') = xs @ server # ys
               \<and> id_c server = newId \<and> optimistic server = None
               \<and> parentId server = Some pid \<and> content server = txt \<and> author server = name)
       \<and> comments (handleReply_end tempId (Inl err) st') = xs @ ys
       \<and> (\<forall>server store'.
             addComment store (replyFields pid txt name) newId storeNow = Inr (server, store')
             \<longrightarrow> comments (handleReply store pid txt name tempId now newId storeNow st)
                   = comments st @ [server])
       \<and> (addComment store (replyFields pid txt name) newId storeNow = Inl err
             \<longrightarrow> comments (handleReply store pid txt name tempId now newId storeNow st) = comments st)"
proof -
  have keep: "map (\<lambda>c. if id_c c = tempId then s else c) zs = zs \<and> filter (\<lambda>c. id_c c \<noteq> tempId) zs = zs"
    if "tempId \<notin> id_c ` set zs" for zs and s :: Comment
    using that by (induction zs) auto
  have a: "comments (handleReply_begin pid txt name tempId now st)
           = comments st @ [optimisticComment pid txt name tempId now]"
    by (simp add: handleReply_begin_def)
  have b: "id_c (optimisticComment pid txt name tempId now) = tempId
       \<and> optimistic (optimisticComment pid txt name tempId now) = Some True"
    by (simp add: optimisticComment_def)
  have c: "requests (handleReply_begin pid txt name tempId now st)
           = requests st @ [AddRequest (replyFields pid txt name)]"
    by (simp add: handleReply_begin_def)
  have d: "comments (handleReply_end tempId (Inr server) st') = xs @ server # ys" for server
    using assms(4) keep[OF assms(2)] keep[OF assms(3)] b
    by (simp add: handleReply_end_def)
  have e: "id_c server = newId \<and> optimistic server = None
               \<and> parentId server = Some pid \<and> content server = txt \<and> author server = name"
    if "addComment store (replyFields pid txt name) newId storeNow = Inr (server, store')"
    for server store'
    using that
    by (auto simp: addComment_def replyFields_def Let_def split: prod.splits if_splits)
  have f: "comments (handleReply_end tempId (Inl err) st') = xs @ ys"
    using assms(4) keep[OF assms(2)] keep[OF assms(3)] b
    by (simp add: handleReply_end_def)
  have g: "comments (handleReply store pid txt name tempId now newId storeNow st) = comments st @ [server]"
    if "addComment store (replyFields pid txt name) newId storeNow = Inr (server, store')"
    for server store'
    using that keep[OF assms(1)] b
    by (simp add: handleReply_def handleReply_end_def handleReply_begin_def)
  have h: "comments (handleReply store pid txt name tempId now newId storeNow st) = comments st"
    if "addComment store (replyFields pid txt name) newId storeNow = Inl err"
    using that keep[OF assms(1)] b
    by (simp add: handleReply_def handleReply_end_def handleReply_begin_def)
  from a b c d e f g h show ?thesis by blast
qed

theorem reply_flow_witness:
  "comments (handleReply_begin ''1'' ''hello'' ''Zoe'' ''temp_1_0.5'' ''2024-01-11T09:00:00.000Z''
              \<lparr>comments = getInitialData, requests = [], alerts = []\<rparr>)
     = getInitialData @ [optimisticComment ''1'' ''hello'' ''Zoe'' ''temp_1_0.5'' ''2024-01-11T09:00:00.000Z'']
   \<and> comments (handleReply_end ''temp_1_0.5''
        (Inr \<lparr>id_c = ''comment_1_abc'', parentId = Some ''1'', content = ''hello'', author = ''Zoe'',
              createdAt = ''2024-01-11T09:00:00.500Z'', optimistic = None\<rparr>)
        \<lparr>comments = getInitialData @ [optimisticComment ''1'' ''hello'' ''Zoe'' ''temp_1_0.5'' ''2024-01-11T09:00:00.000Z''],
         requests = [], alerts = []\<rparr>)
     = getInitialData @ [\<lparr>id_c = ''comment_1_abc'', parentId = Some ''1'', content = ''hello'', author = ''Zoe'',
              createdAt = ''2024-01-11T09:00:00.500Z'', optimistic = None\<rparr>]
   \<and> comments (handleReply_end ''temp_1_0.5'' (Inl StoreError)
        \<lparr>comments = getInitialData @ [optimisticComment ''1'' ''hello'' ''Zoe'' ''temp_1_0.5'' ''2024-01-11T09:00:00.000Z''],
         requests = [], alerts = []\<rparr>)
     = getInitialData"
proof -
  have fresh: "''temp_1_0.5'' \<notin> id_c ` set (comments \<lparr>comments = getInitialData, requests = [], alerts = []\<rparr>)"
    "''temp_1_0.5'' \<notin> id_c ` set getInitialData" "''temp_1_0.5'' \<notin> id_c ` set []"
    by (simp_all add: getInitialData_def)
  have st': "comments \<lparr>comments = getInitialData @ [optimisticComment ''1'' ''hello'' ''Zoe'' ''temp_1_0.5'' ''2024-01-11T09:00:00.000Z''],
         requests = [], alerts = []\<rparr>
      = getInitialData @ optimisticComment ''1'' ''hello'' ''Zoe'' ''temp_1_0.5'' ''2024-01-11T09:00:00.000Z'' # []"
    by simp
  have add: "addComment \<lparr>window = True, item = Some getInitialData\<rparr> (replyFields ''1'' ''hello'' ''Zoe'')
               ''comment_1_abc'' ''2024-01-11T09:00:00.500Z''
       = Inr (\<lparr>id_c = ''comment_1_abc'', parentId = Some ''1'', content = ''hello'', author = ''Zoe'',
              createdAt = ''2024-01-11T09:00:00.500Z'', optimistic = None\<rparr>,
              \<lparr>window = True, item = Some (getInitialData @ [\<lparr>id_c = ''comment_1_abc'', parentId = Some ''1'', content = ''hello'', author = ''Zoe'',
              createdAt = ''2024-01-11T09:00:00.500Z'', optimistic = None\<rparr>])\<rparr>)"
    by (simp add: addComment_def getComments_def replyFields_def Let_def)
  from reply_flow[OF fresh st', of "\<lparr>window = True, item = Some getInitialData\<rparr>" "''comment_1_abc''"
      "''2024-01-11T09:00:00.500Z''" StoreError] add
  show ?thesis by simp
qed

text \<open>
  C10: when no element of the collection has the temporary id at the time the
  store's add succeeds, the confirmation leaves the state as it is: the store's
  comment is not inserted and no element is changed.
\<close>

theorem confirm_without_temporary:
  assumes "tempId \<notin> id_c ` set (comments st)"
  shows "handleReply_end tempId (Inr server) st = st"
proof -
  have "map (\<lambda>c. if id_c c = tempId then server else c) zs = zs"
    if "tempId \<notin> id_c ` set zs" for zs
    using that by (induction zs) auto
  with assms show ?thesis by (simp add: handleReply_end_def)
qed

text \<open>
  An instance: a reply to comment 5 of the seeded collection is pending when comment 2
  is deleted; the delete removes 2, 3, 4, 5 and the temporary reply.  When the store's
  add then succeeds, the comments 1, 6 and 7 and the rest of the state stay as they are.
\<close>

theorem confirm_without_temporary_witness:
  "handleDelete_begin True ''2''
     (handleReply_begin ''5'' ''hello'' ''Zoe'' ''temp_1_0.5'' ''2024-01-11T09:00:00.000Z''
        \<lparr>comments = getInitialData, requests = [], alerts = []\<rparr>)
     = Some (\<lparr>comments = [getInitialData ! 0, getInitialData ! 5, getInitialData ! 6],
               requests = [AddRequest (replyFields ''5'' ''hello'' ''Zoe''), DeleteRequest ''2''],
               alerts = []\<rparr>,
             [getInitialData ! 1, getInitialData ! 2, getInitialData ! 3, getInitialData ! 4,
              optimisticComment ''5'' ''hello'' ''Zoe'' ''temp_1_0.5'' ''2024-01-11T09:00:00.000Z''])
   \<and> ''temp_1_0.5'' \<notin> id_c ` set [getInitialData ! 0, getInitialData ! 5, getInitialData ! 6]
   \<and> handleReply_end ''temp_1_0.5''
        (Inr \<lparr>id_c = ''comment_1_abc'', parentId = Some ''5'', content = ''hello'', author = ''Zoe'',
              createdAt = ''2024-01-11T09:00:00.500Z'', optimistic = None\<rparr>)
        \<lparr>comments = [getInitialData ! 0, getInitialData ! 5, getInitialData ! 6],
         requests = [AddRequest (replyFields ''5'' ''hello'' ''Zoe''), DeleteRequest ''2''],
         alerts = []\<rparr>
     = \<lparr>comments = [getInitialData ! 0, getInitialData ! 5, getInitialData ! 6],
        requests = [AddRequest (replyFields ''5'' ''hello'' ''Zoe''), DeleteRequest ''2''],
        alerts = []\<rparr>"
proof -
  let ?st = "\<lparr>comments = [getInitialData ! 0, getInitialData ! 5, getInitialData ! 6],
        requests = [AddRequest (replyFields ''5'' ''hello'' ''Zoe''), DeleteRequest ''2''],
        alerts = []\<rparr>"
  have a: "handleDelete_begin True ''2''
     (handleReply_begin ''5'' ''hello'' ''Zoe'' ''temp_1_0.5'' ''2024-01-11T09:00:00.000Z''
        \<lparr>comments = getInitialData, requests = [], alerts = []\<rparr>)
     = Some (?st,
             [getInitialData ! 1, getInitialData ! 2, getInitialData ! 3, getInitialData ! 4,
              optimisticComment ''5'' ''hello'' ''Zoe'' ''temp_1_0.5'' ''2024-01-11T09:00:00.000Z''])"
    by (simp add: handleDelete_begin_def handleReply_begin_def deletedComments_def
        reachesTarget.simps getInitialData_def optimisticComment_def)
  have b: "''temp_1_0.5'' \<notin> id_c ` set [getInitialData ! 0, getInitialData ! 5, getInitialData ! 6]"
    by (simp add: getInitialData_def)
  then have "''temp_1_0.5'' \<notin> id_c ` set (comments ?st)" by simp
  then have c: "handleReply_end ''temp_1_0.5''
        (Inr \<lparr>id_c = ''comment_1_abc'', parentId = Some ''5'', content = ''hello'', author = ''Zoe'',
              createdAt = ''2024-01-11T09:00:00.500Z'', optimistic = None\<rparr>) ?st = ?st"
    by (rule confirm_without_temporary)
  from a b c show ?thesis by blast
qed

text \<open>
  C5: a reply with missing required fields is rejected before any optimistic change.
  A reply reaches \<open>handleReply\<close> through \<open>CommentItem.handleSubmitReply\<close> only,
  whose guard is in front of the call.  When the content or the author is empty, or
  is white space only, the handler does nothing: the flat collection is unchanged,
  no store request is issued (the log of requests is part of the state), and the
  form stays as it is.
\<close>

theorem submit_reply_rejected:
  assumes "trim (replyContent form) = [] \<or> trim (replyAuthor form) = []"
  shows "handleSubmitReply nodeId tempId now (form, st) = (form, st)"
  using assms by (auto simp: handleSubmitReply_def)

text \<open>
  Two instances on the seeded collection: a content of a space, U+3000, U+00A0 and a
  line feed, and an empty author.
\<close>

theorem submit_reply_rejected_witness:
  "trim [CHR 0x20, CHR 0xE3, CHR 0x80, CHR 0x80, CHR 0xC2, CHR 0xA0, CHR 0x0A] = []
   \<and> handleSubmitReply ''1'' ''temp_1_0.5'' ''2024-01-11T09:00:00.000Z''
     (\<lparr>isReplying = True,
       replyContent = [CHR 0x20, CHR 0xE3, CHR 0x80, CHR 0x80, CHR 0xC2, CHR 0xA0, CHR 0x0A],
       replyAuthor = ''Zoe''\<rparr>,
      \<lparr>comments = getInitialData, requests = [], alerts = []\<rparr>)
   = (\<lparr>isReplying = True,
       replyContent = [CHR 0x20, CHR 0xE3, CHR 0x80, CHR 0x80, CHR 0xC2, CHR 0xA0, CHR 0x0A],
       replyAuthor = ''Zoe''\<rparr>,
      \<lparr>comments = getInitialData, requests = [], alerts = []\<rparr>)
   \<and> trim ''hello'' = ''hello'' \<and> trim [] = []
   \<and> handleSubmitReply ''1'' ''temp_1_0.5'' ''2024-01-11T09:00:00.000Z''
     (\<lparr>isReplying = True, replyContent = ''hello'', replyAuthor = []\<rparr>,
      \<lparr>comments = getInitialData, requests = [], alerts = []\<rparr>)
   = (\<lparr>isReplying = True, replyContent = ''hello'', replyAuthor = []\<rparr>,
      \<lparr>comments = getInitialData, requests = [], alerts = []\<rparr>)"
proof -
  have t1: "trim [CHR 0x20, CHR 0xE3, CHR 0x80, CHR 0x80, CHR 0xC2, CHR 0xA0, CHR 0x0A] = []"
    by code_simp
  have t2: "trim ''hello'' = ''hello''"
    by code_simp
  have t3: "trim [] = []"
    by code_simp
  have a: "handleSubmitReply ''1'' ''temp_1_0.5'' ''2024-01-11T09:00:00.000Z''
     (\<lparr>isReplying = True,
       replyContent = [CHR 0x20, CHR 0xE3, CHR 0x80, CHR 0x80, CHR 0xC2, CHR 0xA0, CHR 0x0A],
       replyAuthor = ''Zoe''\<rparr>,
      \<lparr>comments = getInitialData, requests = [], alerts = []\<rparr>)
   = (\<lparr>isReplying = True,
       replyContent = [CHR 0x20, CHR 0xE3, CHR 0x80, CHR 0x80, CHR 0xC2, CHR 0xA0, CHR 0x0A],
       replyAuthor = ''Zoe''\<rparr>,
      \<lparr>comments = getInitialData, requests = [], alerts = []\<rparr>)"
    by (rule submit_reply_rejected) (simp add: t1)
  have b: "handleSubmitReply ''1'' ''temp_1_0.5'' ''2024-01-11T09:00:00.000Z''
     (\<lparr>isReplying = True, replyContent = ''hello'', replyAuthor = []\<rparr>,
      \<lparr>comments = getInitialData, requests = [], alerts = []\<rparr>)
   = (\<lparr>isReplying = True, replyContent = ''hello'', replyAuthor = []\<rparr>,
      \<lparr>comments = getInitialData, requests = [], alerts = []\<rparr>)"
    by (rule submit_reply_rejected) (simp add: t3)
  from t1 t2 t3 a b show ?thesis by blast
qed

section \<open>The forest of a flat collection\<close>

text \<open>
  The flat collection is taken with the invariants of the data model: the ids are
  unique (\<open>uniqueIds\<close>) and no comment is its own ancestor (\<open>acyclicComments\<close>).
  Empty collections and comments that name an absent parent are included.

  C7: \<open>buildTree\<close> returns a forest with exactly as many nodes as the collection has
  comments, \<open>countNodes (buildTree C) = C.length\<close>.  Every comment appears exactly
  once; the roots are the comments without a parent or with an absent one, and the
  children of a node are the comments that name it as parent.
\<close>

theorem buildTree_count:
  assumes "uniqueIds cs" and "acyclicComments cs"
  shows "\<exists>forest. buildTree tm cs = Some forest \<and> countNodes forest = length cs
     \<and> mset (map comment (allNodes forest)) = mset cs
     \<and> set (map comment forest) = {c \<in> set cs. isRoot cs c}
     \<and> (\<forall>M \<in> set (allNodes forest).
           set (map comment (children M)) = {c \<in> set cs. parentId c = Some (id_c (comment M))})"
proof -
  from buildTree_forest[OF assms] obtain forest where b: "buildTree tm cs = Some forest"
    and F: "list_all2 (treeOk tm cs) (sortBy (compareCreatedAt tm) (rootsOf cs)) forest" by blast
  note fn = forest_nodes[OF assms F] and fc = forest_comments[OF assms F]
  have 1: "countNodes forest = length cs" using fc(3) by (simp add: countNodes_allNodes)
  have "distinct cs" using assms(1) by (auto simp: uniqueIds_def distinct_map)
  with fc(1,2) have 2: "mset (map comment (allNodes forest)) = mset cs"
    using set_eq_iff_mset_eq_distinct by blast
  have 3: "set (map comment forest) = {c \<in> set cs. isRoot cs c}"
    unfolding fn(1) by (auto simp: set_sortBy rootsOf_def)
  have 4: "\<forall>M \<in> set (allNodes forest).
           set (map comment (children M)) = {c \<in> set cs. parentId c = Some (id_c (comment M))}"
  proof
    fix M assume "M \<in> set (allNodes forest)"
    with fn(4) have "map comment (children M) = sortBy (compareCreatedAt tm) (childrenOf cs (id_c (comment M)))"
      by blast
    then show "set (map comment (children M)) = {c \<in> set cs. parentId c = Some (id_c (comment M))}"
      by (auto simp: set_sortBy childrenOf_def)
  qed
  from b 1 2 3 4 show ?thesis by blast
qed

theorem buildTree_count_witness:
  "uniqueIds tieExample \<and> acyclicComments tieExample
   \<and> map_option countNodes (buildTree isoTime tieExample) = Some 5"
proof -
  from buildTree_count[OF tie_unique tie_acyclic, of isoTime]
  obtain forest where "buildTree isoTime tieExample = Some forest" "countNodes forest = length tieExample"
    by blast
  moreover have "length tieExample = 5" by (simp add: tieExample_def)
  ultimately show ?thesis using tie_unique tie_acyclic by simp
qed

text \<open>
  C8: \<open>flattenTree (buildTree C)\<close>, as a set, is \<open>C\<close>: the round trip keeps exactly
  the records of the collection (a record is all fields of a Comment; \<open>children\<close>
  and \<open>depth\<close> are not part of the elements of the result).  Every record occurs once.
\<close>

theorem flatten_buildTree:
  assumes "uniqueIds cs" and "acyclicComments cs"
  shows "\<exists>forest. buildTree tm cs = Some forest \<and> set (flattenTree forest) = set cs
     \<and> mset (flattenTree forest) = mset cs"
proof -
  from buildTree_forest[OF assms] obtain forest where b: "buildTree tm cs = Some forest"
    and F: "list_all2 (treeOk tm cs) (sortBy (compareCreatedAt tm) (rootsOf cs)) forest" by blast
  note fc = forest_comments[OF assms F]
  have "distinct cs" using assms(1) by (auto simp: uniqueIds_def distinct_map)
  with fc(1,2) have "mset (map comment (allNodes forest)) = mset cs"
    using set_eq_iff_mset_eq_distinct by blast
  with b fc(1) show ?thesis by (simp add: flattenTree_allNodes)
qed

theorem flatten_buildTree_witness:
  "uniqueIds tieExample \<and> acyclicComments tieExample
   \<and> map_option (set \<circ> flattenTree) (buildTree isoTime tieExample) = Some (set tieExample)"
proof -
  from flatten_buildTree[OF tie_unique tie_acyclic, of isoTime]
  obtain forest where "buildTree isoTime tieExample = Some forest" "set (flattenTree forest) = set tieExample"
    by blast
  then show ?thesis using tie_unique tie_acyclic by simp
qed

text \<open>
  C9: when every time stamp is parseable, the time values are non-decreasing along
  the roots and along the children of every node, and the comments with the same time
  value stand in the order they have in the collection (the sort is stable):
  restricted to one time value, the roots are \<open>rootsOf cs\<close> and the children of a
  node are \<open>childrenOf cs\<close> of its id, which are in the order of \<open>cs\<close>.
\<close>

theorem buildTree_sorted:
  assumes "uniqueIds cs" and "acyclicComments cs" and "parseable tm cs"
  shows "\<exists>forest. buildTree tm cs = Some forest
     \<and> sorted (map (timeOf tm \<circ> comment) forest)
     \<and> (\<forall>M \<in> set (allNodes forest). sorted (map (timeOf tm \<circ> comment) (children M)))
     \<and> (\<forall>t. filter (\<lambda>c. timeOf tm c = t) (map comment forest)
              = filter (\<lambda>c. timeOf tm c = t) (rootsOf cs))
     \<and> (\<forall>M \<in> set (allNodes forest). \<forall>t.
            filter (\<lambda>c. timeOf tm c = t) (map comment (children M))
              = filter (\<lambda>c. timeOf tm c = t) (childrenOf cs (id_c (comment M))))"
proof -
  from buildTree_forest[OF assms(1,2)] obtain forest where b: "buildTree tm cs = Some forest"
    and F: "list_all2 (treeOk tm cs) (sortBy (compareCreatedAt tm) (rootsOf cs)) forest" by blast
  note fn = forest_nodes[OF assms(1,2) F]
  have p: "\<forall>c \<in> set xs. tm (createdAt c) \<noteq> None" if "set xs \<subseteq> set cs" for xs
    using that assms(3) by (auto simp: parseable_def)
  have r: "map comment forest = sort_key (timeOf tm) (rootsOf cs)"
    unfolding fn(1) by (rule sortBy_parseable[OF p[OF rootsOf_subset]])
  have ch: "map comment (children M) = sort_key (timeOf tm) (childrenOf cs (id_c (comment M)))"
    if "M \<in> set (allNodes forest)" for M
    using fn(4) that sortBy_parseable[OF p[OF childrenOf_subset]] by simp
  have 1: "sorted (map (timeOf tm \<circ> comment) forest)"
    using r by (metis map_map sorted_sort_key)
  have 2: "\<forall>M \<in> set (allNodes forest). sorted (map (timeOf tm \<circ> comment) (children M))"
    using ch by (metis map_map sorted_sort_key)
  have 3: "\<forall>t. filter (\<lambda>c. timeOf tm c = t) (map comment forest)
              = filter (\<lambda>c. timeOf tm c = t) (rootsOf cs)"
    unfolding r by (simp add: sort_key_stable)
  have 4: "\<forall>M \<in> set (allNodes forest). \<forall>t.
            filter (\<lambda>c. timeOf tm c = t) (map comment (children M))
              = filter (\<lambda>c. timeOf tm c = t) (childrenOf cs (id_c (comment M)))"
    using ch by (simp add: sort_key_stable)
  from b 1 2 3 4 show ?thesis by blast
qed

theorem buildTree_sorted_witness:
  "uniqueIds tieExample \<and> acyclicComments tieExample \<and> parseable isoTime tieExample
   \<and> (\<exists>forest. buildTree isoTime tieExample = Some forest
     \<and> sorted (map (timeOf isoTime \<circ> comment) forest)
     \<and> filter (\<lambda>c. timeOf isoTime c = 1704881100000) (map comment (children (forest ! 1)))
         = [tieExample ! 0, tieExample ! 2])"
proof -
  from buildTree_sorted[OF tie_unique tie_acyclic tie_parseable]
  obtain forest where f: "buildTree isoTime tieExample = Some forest"
    "sorted (map (timeOf isoTime \<circ> comment) forest)"
    "\<forall>M \<in> set (allNodes forest). \<forall>t.
            filter (\<lambda>c. timeOf isoTime c = t) (map comment (children M))
              = filter (\<lambda>c. timeOf isoTime c = t) (childrenOf tieExample (id_c (comment M)))"
    by blast
  have ids: "map_option (map (id_c \<circ> comment)) (buildTree isoTime tieExample) = Some [''4'', ''1'']"
    by code_simp
  with f(1) have l: "length forest = 2" "id_c (comment (forest ! 1)) = ''1''"
    by (auto simp: map_eq_Cons_conv)
  then have "forest ! 1 \<in> set forest" by simp
  then have "forest ! 1 \<in> set (allNodes forest)"
    using subnodes_self by (auto simp: allNodes_def)
  with f(3) l(2) have "filter (\<lambda>c. timeOf isoTime c = 1704881100000) (map comment (children (forest ! 1)))
      = filter (\<lambda>c. timeOf isoTime c = 1704881100000) (childrenOf tieExample ''1'')"
    by metis
  also have "\<dots> = [tieExample ! 0, tieExample ! 2]"
    by code_simp
  finally show ?thesis using f(1,2) tie_unique tie_acyclic tie_parseable by blast
qed

section \<open>The delete flow\<close>

text \<open>
  C3 (as stated): after a failed delete the rollback restores the collection so that
  the removed records are back at the same sort positions.  The rollback appends the
  retained records to the end of the collection, and among siblings with the same
  time stamp the order of the collection decides.  In \<open>tieExample\<close> the siblings 3
  and 2 have the same time stamp and 3 stands first; after deleting 3 (with its
  child 5) and rolling back, 3 stands behind 2 in the collection and in the forest.
\<close>

theorem rollback_position_counterexample:
  "map_option (map id_c \<circ> flattenTree) (buildTree isoTime tieExample)
     = Some [''4'', ''1'', ''3'', ''5'', ''2'']
   \<and> handleDelete_begin True ''3'' \<lparr>comments = tieExample, requests = [], alerts = []\<rparr>
     = Some (\<lparr>comments = [tieExample ! 1, tieExample ! 2, tieExample ! 3],
               requests = [DeleteRequest ''3''], alerts = []\<rparr>,
             [tieExample ! 0, tieExample ! 4])
   \<and> map_option (map id_c \<circ> flattenTree)
        (buildTree isoTime (comments (handleDelete_end [tieExample ! 0, tieExample ! 4] (Inl StoreError)
           \<lparr>comments = [tieExample ! 1, tieExample ! 2, tieExample ! 3],
            requests = [DeleteRequest ''3''], alerts = []\<rparr>)))
     = Some [''4'', ''1'', ''2'', ''3'', ''5'']"
proof -
  have a: "map_option (map id_c \<circ> flattenTree) (buildTree isoTime tieExample)
     = Some [''4'', ''1'', ''3'', ''5'', ''2'']"
    by code_simp
  have b: "handleDelete_begin True ''3'' \<lparr>comments = tieExample, requests = [], alerts = []\<rparr>
     = Some (\<lparr>comments = [tieExample ! 1, tieExample ! 2, tieExample ! 3],
               requests = [DeleteRequest ''3''], alerts = []\<rparr>,
             [tieExample ! 0, tieExample ! 4])"
    by (simp add: handleDelete_begin_def deletedComments_def reachesTarget.simps tieExample_def)
  have c: "map_option (map id_c \<circ> flattenTree)
        (buildTree isoTime (comments (handleDelete_end [tieExample ! 0, tieExample ! 4] (Inl StoreError)
           \<lparr>comments = [tieExample ! 1, tieExample ! 2, tieExample ! 3],
            requests = [DeleteRequest ''3''], alerts = []\<rparr>)))
     = Some [''4'', ''1'', ''2'', ''3'', ''5'']"
    by code_simp
  from a b c show ?thesis by blast
qed

text \<open>
  C3 (amended): for a flat collection with unique ids and no cycle and a target id
  \<open>X\<close>, the optimistic step of \<open>handleDelete\<close> removes exactly the comments whose
  id is \<open>X\<close> or descends from \<open>X\<close> (computed over the collection before the
  removal), keeps every other comment, and issues the delete request.  When the
  store's delete succeeds nothing else changes.  When it fails, the rollback appends
  the removed comments, unchanged, to the end of the collection: the collection has
  the same records as before the delete, and the forest built from it contains all
  of them.  When moreover all time stamps are parseable and pairwise different, the
  roots and the children of every comment are in the same order as in the forest
  before the delete.
\<close>

theorem delete_flow:
  assumes "uniqueIds (comments st)" and "acyclicComments (comments st)"
  shows "\<exists>st' deleted forest'.
      handleDelete_begin True X st = Some (st', deleted)
    \<and> deleted = filter (\<lambda>c. id_c c \<in> descendants (comments st) X) (comments st)
    \<and> comments st' = filter (\<lambda>c. id_c c \<notin> descendants (comments st) X) (comments st)
    \<and> requests st' = requests st @ [DeleteRequest X]
    \<and> handleDelete_end deleted (Inr ()) st' = st'
    \<and> comments (handleDelete_end deleted (Inl err) st') = comments st' @ deleted
    \<and> mset (comments (handleDelete_end deleted (Inl err) st')) = mset (comments st)
    \<and> buildTree tm (comments (handleDelete_end deleted (Inl err) st')) = Some forest'
    \<and> set (flattenTree forest') = set (comments st)
    \<and> (parseable tm (comments st) \<and> inj_on (timeOf tm) (set (comments st)) \<longrightarrow>
         (\<exists>forest. buildTree tm (comments st) = Some forest
            \<and> map comment forest' = map comment forest
            \<and> (\<forall>M \<in> set (allNodes forest). \<forall>M' \<in> set (allNodes forest').
                  comment M' = comment M \<longrightarrow> map comment (children M') = map comment (children M))))"
proof -
  let ?cs = "comments st"
  let ?P = "\<lambda>c. id_c c \<in> descendants ?cs X"
  let ?st' = "st\<lparr>comments := filter (\<lambda>c. \<not> ?P c) ?cs, requests := requests st @ [DeleteRequest X]\<rparr>"
  let ?del = "filter ?P ?cs"
  let ?cs' = "filter (\<lambda>c. \<not> ?P c) ?cs @ ?del"
  have b: "handleDelete_begin True X st = Some (?st', ?del)"
    using delete_closure[OF assms] by simp
  have ok: "handleDelete_end ?del (Inr ()) ?st' = ?st'"
    by (simp add: handleDelete_end_def)
  have e: "comments (handleDelete_end ?del (Inl err) ?st') = ?cs'"
    by (simp add: handleDelete_end_def)
  have m: "mset ?cs' = mset ?cs" by (rule rollback_mset)
  have U': "uniqueIds ?cs'" and Acy': "acyclicComments ?cs'"
    using assms uniqueIds_mset[OF m] acyclic_mset[OF m] by simp_all
  from buildTree_forest[OF U' Acy'] obtain forest' where b': "buildTree tm ?cs' = Some forest'"
    and F': "list_all2 (treeOk tm ?cs') (sortBy (compareCreatedAt tm) (rootsOf ?cs')) forest'" by blast
  have fl: "set (flattenTree forest') = set ?cs"
    using forest_comments(1)[OF U' Acy' F'] mset_eq_setD[OF m] by (simp add: flattenTree_allNodes)
  from buildTree_forest[OF assms] obtain forest where bf: "buildTree tm ?cs = Some forest"
    and F: "list_all2 (treeOk tm ?cs) (sortBy (compareCreatedAt tm) (rootsOf ?cs)) forest" by blast
  have pos: "map comment forest' = map comment forest
            \<and> (\<forall>M \<in> set (allNodes forest). \<forall>M' \<in> set (allNodes forest').
                  comment M' = comment M \<longrightarrow> map comment (children M') = map comment (children M))"
    if "parseable tm ?cs" "inj_on (timeOf tm) (set ?cs)"
    using same_positions[OF assms m that F F'] by blast
  show ?thesis
  proof (intro exI conjI)
    show "handleDelete_begin True X st = Some (?st', ?del)" by (rule b)
    show "?del = filter ?P ?cs" by simp
    show "comments ?st' = filter (\<lambda>c. id_c c \<notin> descendants ?cs X) ?cs" by simp
    show "requests ?st' = requests st @ [DeleteRequest X]" by simp
    show "handleDelete_end ?del (Inr ()) ?st' = ?st'" by (rule ok)
    show "comments (handleDelete_end ?del (Inl err) ?st') = comments ?st' @ ?del"
      using e by simp
    show "mset (comments (handleDelete_end ?del (Inl err) ?st')) = mset ?cs"
      using e m by simp
    show "buildTree tm (comments (handleDelete_end ?del (Inl err) ?st')) = Some forest'"
      using e b' by simp
    show "set (flattenTree forest') = set ?cs" by (rule fl)
    show "parseable tm ?cs \<and> inj_on (timeOf tm) (set ?cs) \<longrightarrow>
         (\<exists>forest. buildTree tm ?cs = Some forest
            \<and> map comment forest' = map comment forest
            \<and> (\<forall>M \<in> set (allNodes forest). \<forall>M' \<in> set (allNodes forest').
                  comment M' = comment M \<longrightarrow> map comment (children M') = map comment (children M)))"
      using bf pos by blast
  qed
qed

theorem delete_flow_witness:
  "uniqueIds getInitialData \<and> acyclicComments getInitialData
   \<and> parseable isoTime getInitialData \<and> inj_on (timeOf isoTime) (set getInitialData)
   \<and> (\<exists>st' deleted forest forest'.
        handleDelete_begin True ''2'' \<lparr>comments = getInitialData, requests = [], alerts = []\<rparr> = Some (st', deleted)
      \<and> map id_c deleted = [''2'', ''3'', ''4'', ''5'']
      \<and> map id_c (comments st') = [''1'', ''6'', ''7'']
      \<and> map id_c (comments (handleDelete_end deleted (Inl StoreError) st'))
           = [''1'', ''6'', ''7'', ''2'', ''3'', ''4'', ''5'']
      \<and> buildTree isoTime getInitialData = Some forest
      \<and> buildTree isoTime (comments (handleDelete_end deleted (Inl StoreError) st')) = Some forest'
      \<and> set (flattenTree forest') = set getInitialData
      \<and> map comment forest' = map comment forest)"
proof -
  let ?st = "\<lparr>comments = getInitialData, requests = [], alerts = []\<rparr>"
  have cs: "comments ?st = getInitialData" by simp
  from delete_flow[of ?st "''2''" StoreError isoTime] seed_unique seed_acyclic seed_parseable seed_times
  obtain st' deleted forest' forest where d:
    "handleDelete_begin True ''2'' ?st = Some (st', deleted)"
    "comments (handleDelete_end deleted (Inl StoreError) st') = comments st' @ deleted"
    "buildTree isoTime (comments (handleDelete_end deleted (Inl StoreError) st')) = Some forest'"
    "set (flattenTree forest') = set getInitialData"
    "buildTree isoTime getInitialData = Some forest"
    "map comment forest' = map comment forest"
    unfolding cs by blast
  have ev: "map_option (\<lambda>(s, del). (map id_c (comments s), map id_c del)) (handleDelete_begin True ''2'' ?st)
      = Some ([''1'', ''6'', ''7''], [''2'', ''3'', ''4'', ''5''])"
    by (simp add: handleDelete_begin_def deletedComments_def reachesTarget.simps getInitialData_def)
  with d(1) have ids: "map id_c (comments st') = [''1'', ''6'', ''7'']" "map id_c deleted = [''2'', ''3'', ''4'', ''5'']"
    by simp_all
  then have rb: "map id_c (comments (handleDelete_end deleted (Inl StoreError) st'))
           = [''1'', ''6'', ''7'', ''2'', ''3'', ''4'', ''5'']"
    using d(2) by simp
  show ?thesis
  proof (intro conjI exI)
    show "handleDelete_begin True ''2'' ?st = Some (st', deleted)" by (rule d(1))
    show "map id_c deleted = [''2'', ''3'', ''4'', ''5'']" by (rule ids(2))
    show "map id_c (comments st') = [''1'', ''6'', ''7'']" by (rule ids(1))
    show "map id_c (comments (handleDelete_end deleted (Inl StoreError) st'))
           = [''1'', ''6'', ''7'', ''2'', ''3'', ''4'', ''5'']" by (rule rb)
    show "buildTree isoTime getInitialData = Some forest" by (rule d(5))
    show "buildTree isoTime (comments (handleDelete_end deleted (Inl StoreError) st')) = Some forest'"
      by (rule d(3))
    show "set (flattenTree forest') = set getInitialData" by (rule d(4))
    show "map comment forest' = map comment forest" by (rule d(6))
  qed (rule seed_unique seed_acyclic seed_parseable seed_times)+
qed


end
